theory Spec2Isabelle
  imports Main "HOL-Library.Word" "HOL-Library.Monad_Syntax"
begin

unbundle bit_operations_syntax

section \<open>Data model of base32.go\<close>

text \<open>
  Go's \<open>byte\<close> is an 8-bit word, \<open>int32\<close> a 32-bit word read as two's complement
  (\<open>>>\<close> on it is the arithmetic shift \<open>signed_drop_bit\<close>, \<open>>= 0\<close> is the signed
  comparison), \<open>uint32\<close> a 32-bit word read unsigned. A Go string and a \<open>[]byte\<close> are
  both byte sequences. Indices, lengths and the bit counter \<open>processedBits\<close> are Go \<open>int\<close>
  values that never go negative and stay far below \<open>2^63\<close>; they are natural numbers here.
\<close>

type_synonym byte = "8 word"
type_synonym int32 = "32 word"
type_synonym uint32 = "32 word"

definition bytes_of :: "string \<Rightarrow> byte list" where
  "bytes_of s = map of_char s"

datatype EncodeOrder = OrderNormal | OrderInversed

text \<open>
  The struct \<open>Alphabet\<close>. The Go field types are \<open>[32]byte\<close> and \<open>[256]byte\<close>; a list
  carries no length in its type, so every read of a table goes through \<open>load\<close> below and an
  index outside the list is a panic of the model.
\<close>

record Alphabet =
  encodeSymbols :: "byte list"
  decodeBytes :: "byte list"
  encodeOrder :: EncodeOrder

text \<open>
  The errors of \<open>NewAlphabet\<close> are \<open>fmt.Errorf\<close> values with the messages
  \<open>invalid length - must be 32 bytes\<close>, \<open>unprintable byte: 0x..\<close> and
  \<open>duplicated byte: 0x..\<close>; the constructor argument is the byte that is formatted.
\<close>

datatype AlphabetError = InvalidLength | UnprintableByte byte | DuplicatedByte byte

record DecodeError =
  Msg :: string
  Offset :: int
  Byte :: byte

text \<open>
  Indexing a slice or an array: Go panics with an index out of range; \<open>None\<close> is that
  panic.
\<close>

definition load :: "byte list \<Rightarrow> nat \<Rightarrow> byte option" where
  "load xs k = (if k < length xs then Some (xs ! k) else None)"

definition store :: "byte list \<Rightarrow> nat \<Rightarrow> byte \<Rightarrow> byte list option" where
  "store xs k v = (if k < length xs then Some (xs[k := v]) else None)"

section \<open>Alphabet construction\<close>

text \<open>
  The map \<open>duplicates\<close> of \<open>NewAlphabet\<close>; reading a missing key of a Go
  \<open>map[byte]bool\<close> gives \<open>false\<close>.
\<close>

definition seen :: "(byte \<rightharpoonup> bool) \<Rightarrow> byte \<Rightarrow> bool" where
  "seen duplicates b = (case duplicates b of None \<Rightarrow> False | Some v \<Rightarrow> v)"

text \<open>
  The second loop of \<open>NewAlphabet\<close>, over the bytes of the string from index \<open>i\<close> on.
  It runs only after the length check, so \<open>i < 32\<close> at every write of \<open>symbols\<close>, and
  \<open>decodeBytes\<close> has 256 entries, so a byte always indexes it. The local variable
  \<open>decodeBytes\<close> is written with a prime, the plain name being the field of the record.
\<close>

fun newAlphabetLoop ::
  "byte list \<Rightarrow> nat \<Rightarrow> byte list \<times> byte list \<times> (byte \<rightharpoonup> bool)
    \<Rightarrow> AlphabetError + byte list \<times> byte list \<times> (byte \<rightharpoonup> bool)" where
  "newAlphabetLoop [] i st = Inr st"
| "newAlphabetLoop (b # bs) i (symbols, decodeBytes', duplicates) =
     (if b < 32 \<or> b > 126 then Inl (UnprintableByte b)
      else if seen duplicates b then Inl (DuplicatedByte b)
      else newAlphabetLoop bs (i + 1)
             (symbols[i := b], decodeBytes'[unat b := of_nat i], duplicates(b \<mapsto> True)))"

definition AlphabetSize :: nat where
  "AlphabetSize = 32"

definition NewAlphabet :: "byte list \<Rightarrow> EncodeOrder \<Rightarrow> AlphabetError + Alphabet" where
  "NewAlphabet alphabet order =
     (if length alphabet \<noteq> AlphabetSize then Inl InvalidLength
      else
        case newAlphabetLoop alphabet 0
               (replicate AlphabetSize 0, replicate 256 0xff, Map.empty) of
          Inl e \<Rightarrow> Inl e
        | Inr (symbols, decodeBytes', duplicates) \<Rightarrow>
            Inr \<lparr>encodeSymbols = symbols, decodeBytes = decodeBytes', encodeOrder = order\<rparr>)"

fun initDecodeLoop :: "byte list \<Rightarrow> nat \<Rightarrow> byte list \<Rightarrow> byte list" where
  "initDecodeLoop [] i decodeBytes' = decodeBytes'"
| "initDecodeLoop (b # bs) i decodeBytes' =
     initDecodeLoop bs (i + 1) (decodeBytes'[unat b := of_nat i])"

definition initDecodeTable :: "byte list \<Rightarrow> byte list" where
  "initDecodeTable alphabet = initDecodeLoop alphabet 0 (replicate 256 0xff)"

definition ZBASE32 :: Alphabet where
  "ZBASE32 =
     \<lparr>encodeSymbols = bytes_of ''ybndrfg8ejkmcpqxot1uwisza345h769'',
      decodeBytes = initDecodeTable (bytes_of ''ybndrfg8ejkmcpqxot1uwisza345h769''),
      encodeOrder = OrderInversed\<rparr>"

definition RFC4648 :: Alphabet where
  "RFC4648 =
     \<lparr>encodeSymbols = bytes_of ''ABCDEFGHIJKLMNOPQRSTUVWXYZ234567'',
      decodeBytes = initDecodeTable (bytes_of ''ABCDEFGHIJKLMNOPQRSTUVWXYZ234567''),
      encodeOrder = OrderNormal\<rparr>"

definition BECH32 :: Alphabet where
  "BECH32 =
     \<lparr>encodeSymbols = bytes_of ''qpzry9x8gf2tvdw0s3jn54khce6mua7l'',
      decodeBytes = initDecodeTable (bytes_of ''qpzry9x8gf2tvdw0s3jn54khce6mua7l''),
      encodeOrder = OrderNormal\<rparr>"

section \<open>Encoding\<close>

definition EncodedLen :: "nat \<Rightarrow> nat" where
  "EncodedLen bytesLen =
     (let minBytes = bytesLen div 5; rem = bytesLen mod 5 in minBytes * 8 + rem * 2 + 1)"

text \<open>
  The two statements \<open>output[o] = encodeTable[v]; o++\<close>. The variable \<open>o\<close> of the source
  is \<open>o'\<close> here, \<open>o\<close> being the composition of functions.
\<close>

definition emit :: "byte list \<Rightarrow> byte list \<Rightarrow> nat \<Rightarrow> int32 \<Rightarrow> (byte list \<times> nat) option" where
  "emit encodeTable output o' v =
     do { s \<leftarrow> load encodeTable (unat v);
          output' \<leftarrow> store output o' s;
          Some (output', o' + 1) }"

type_synonym encState = "byte list \<times> nat \<times> int32"

text \<open>The body of the loop of the \<open>OrderInversed\<close> branch, for the byte \<open>b = input[i]\<close>.\<close>

definition encodeInversedByte ::
  "byte list \<Rightarrow> nat \<Rightarrow> byte \<Rightarrow> encState \<Rightarrow> encState option" where
  "encodeInversedByte encodeTable i b st =
     (case st of (output, o', remain) \<Rightarrow>
        if i mod 5 = 0 then
          (let x = (ucast b :: int32) in
           do { (output, o') \<leftarrow> emit encodeTable output o' (x AND 0x1F);
                Some (output, o', signed_drop_bit 5 x) })
        else if i mod 5 = 1 then
          (let inp = (ucast b :: int32); x = remain OR push_bit 3 inp in
           do { (output, o') \<leftarrow> emit encodeTable output o' (x AND 0x1F);
                (output, o') \<leftarrow> emit encodeTable output o' (signed_drop_bit 5 x AND 0x1F);
                Some (output, o', signed_drop_bit 10 x) })
        else if i mod 5 = 2 then
          (let inp = (ucast b :: int32); x = remain OR push_bit 1 inp in
           do { (output, o') \<leftarrow> emit encodeTable output o' (x AND 0x1F);
                Some (output, o', signed_drop_bit 5 x) })
        else if i mod 5 = 3 then
          (let inp = (ucast b :: int32); x = remain OR push_bit 4 inp in
           do { (output, o') \<leftarrow> emit encodeTable output o' (x AND 0x1F);
                (output, o') \<leftarrow> emit encodeTable output o' (signed_drop_bit 5 x AND 0x1F);
                Some (output, o', signed_drop_bit 10 x AND 0x3) })
        else
          (let inp = (ucast b :: int32); x = remain OR push_bit 2 inp in
           do { (output, o') \<leftarrow> emit encodeTable output o' (x AND 0x1F);
                (output, o') \<leftarrow> emit encodeTable output o' (signed_drop_bit 5 x AND 0x1F);
                Some (output, o', - 1) }))"

text \<open>The body of the loop of the standard branch.\<close>

definition encodeNormalByte ::
  "byte list \<Rightarrow> nat \<Rightarrow> byte \<Rightarrow> encState \<Rightarrow> encState option" where
  "encodeNormalByte encodeTable i b st =
     (case st of (output, o', remain) \<Rightarrow>
        if i mod 5 = 0 then
          (let inp = (ucast b :: int32); x = signed_drop_bit 3 inp in
           do { (output, o') \<leftarrow> emit encodeTable output o' (x AND 0x1F);
                Some (output, o', push_bit 2 (inp AND 7)) })
        else if i mod 5 = 1 then
          (let inp = (ucast b :: int32); x = push_bit 6 remain OR inp in
           do { (output, o') \<leftarrow> emit encodeTable output o' (signed_drop_bit 6 x AND 0x1F);
                (output, o') \<leftarrow> emit encodeTable output o' (signed_drop_bit 1 x AND 0x1F);
                Some (output, o', push_bit 4 (x AND 0x1)) })
        else if i mod 5 = 2 then
          (let inp = (ucast b :: int32); x = push_bit 4 remain OR inp in
           do { (output, o') \<leftarrow> emit encodeTable output o' (signed_drop_bit 4 x AND 0x1F);
                Some (output, o', push_bit 1 (x AND 15)) })
        else if i mod 5 = 3 then
          (let inp = (ucast b :: int32); x = push_bit 7 remain OR inp in
           do { (output, o') \<leftarrow> emit encodeTable output o' (signed_drop_bit 7 x AND 0x1F);
                (output, o') \<leftarrow> emit encodeTable output o' (signed_drop_bit 2 x AND 0x1F);
                Some (output, o', push_bit 3 (x AND 3)) })
        else
          (let inp = (ucast b :: int32); x = push_bit 5 remain OR inp in
           do { (output, o') \<leftarrow> emit encodeTable output o' (signed_drop_bit 5 x AND 0x1F);
                (output, o') \<leftarrow> emit encodeTable output o' (x AND 0x1F);
                Some (output, o', - 1) }))"

text \<open>
  \<open>for i := 0; i < len(input); i++ { body }\<close>: the list is \<open>input[i:]\<close>, and a panic of
  the body ends the loop.
\<close>

fun encodeLoop ::
  "(nat \<Rightarrow> byte \<Rightarrow> encState \<Rightarrow> encState option) \<Rightarrow> byte list \<Rightarrow> nat \<Rightarrow> encState
    \<Rightarrow> encState option" where
  "encodeLoop body [] i st = Some st"
| "encodeLoop body (b # bs) i st =
     (case body i b st of None \<Rightarrow> None | Some st' \<Rightarrow> encodeLoop body bs (i + 1) st')"

text \<open>The result is the returned count together with the output buffer as the call leaves it.\<close>

definition EncodeToSlice :: "byte list \<Rightarrow> byte list \<Rightarrow> Alphabet \<Rightarrow> (nat \<times> byte list) option" where
  "EncodeToSlice input output alphabet =
     (let encodeTable = encodeSymbols alphabet in
      do { (output, o', remain) \<leftarrow>
             (if encodeOrder alphabet = OrderInversed
              then encodeLoop (encodeInversedByte encodeTable) input 0 (output, 0, - 1)
              else encodeLoop (encodeNormalByte encodeTable) input 0 (output, 0, - 1));
           (output, o') \<leftarrow>
             (if 0 \<le>s remain then emit encodeTable output o' (remain AND 0x1F)
              else Some (output, o'));
           Some (o', output) })"

text \<open>\<open>buf[:n]\<close> panics when \<open>n\<close> exceeds the capacity of the slice.\<close>

definition slice_to :: "byte list \<Rightarrow> nat \<Rightarrow> byte list option" where
  "slice_to buf n = (if n \<le> length buf then Some (take n buf) else None)"

definition EncodeAlphabet :: "byte list \<Rightarrow> Alphabet \<Rightarrow> byte list option" where
  "EncodeAlphabet input alphabet =
     (let encodedSize = EncodedLen (length input); buf = replicate encodedSize 0 in
      do { (encLen, buf) \<leftarrow> EncodeToSlice input buf alphabet;
           slice_to buf encLen })"

definition Encode :: "byte list \<Rightarrow> byte list option" where
  "Encode input = EncodeAlphabet input ZBASE32"

section \<open>Decoding\<close>

definition DecodedLen :: "nat \<Rightarrow> nat" where
  "DecodedLen bytesLen =
     (let fullChunks = bytesLen div 8; remainder = bytesLen mod 8 in fullChunks * 5 + remainder)"

type_synonym decState = "byte list \<times> nat \<times> nat \<times> uint32"

text \<open>
  The body of a decoding loop either goes on with a new state (\<open>Inr\<close>), or returns the
  error from the function (\<open>Inl\<close>, with the buffer as it is left), or panics (\<open>None\<close>).
\<close>

definition decodeInversedSym ::
  "byte list \<Rightarrow> nat \<Rightarrow> byte \<Rightarrow> decState \<Rightarrow> (DecodeError \<times> byte list + decState) option" where
  "decodeInversedSym decodeTable i c st =
     (case st of (buffer, o', processedBits, acc) \<Rightarrow>
        do { (buffer, o', processedBits, acc) \<leftarrow>
               (if processedBits \<ge> 8 then
                  do { buffer \<leftarrow> store buffer o' (ucast (acc AND 0xFF));
                       Some (buffer, o' + 1, processedBits - 8, drop_bit 8 acc) }
                else Some (buffer, o', processedBits, acc));
             decoded \<leftarrow> load decodeTable (unat c);
             if decoded = 0xff
             then Some (Inl (\<lparr>Msg = ''invalid byte'', Offset = int i, Byte = c\<rparr>, buffer))
             else Some (Inr (buffer, o', processedBits + 5,
                             push_bit processedBits (ucast decoded) OR acc)) })"

definition decodeNormalSym ::
  "byte list \<Rightarrow> nat \<Rightarrow> byte \<Rightarrow> decState \<Rightarrow> (DecodeError \<times> byte list + decState) option" where
  "decodeNormalSym decodeTable i c st =
     (case st of (buffer, o', processedBits, acc) \<Rightarrow>
        do { decoded \<leftarrow> load decodeTable (unat c);
             if decoded = 0xff
             then Some (Inl (\<lparr>Msg = ''invalid byte'', Offset = int i, Byte = c\<rparr>, buffer))
             else
               (let acc = push_bit 5 acc OR ucast decoded;
                    processedBits = processedBits + 5 in
                if processedBits \<ge> 8 then
                  (let processedBits = processedBits - 8 in
                   do { buffer \<leftarrow> store buffer o' (ucast (drop_bit processedBits acc AND 0xFF));
                        Some (Inr (buffer, o' + 1, processedBits,
                                   acc AND (push_bit processedBits 1 - 1))) })
                else Some (Inr (buffer, o', processedBits, acc))) })"

text \<open>\<open>for i, c := range input { body }\<close>, the list being \<open>input[i:]\<close>.\<close>

fun decodeLoop ::
  "(nat \<Rightarrow> byte \<Rightarrow> decState \<Rightarrow> (DecodeError \<times> byte list + decState) option) \<Rightarrow> byte list \<Rightarrow> nat
    \<Rightarrow> decState \<Rightarrow> (DecodeError \<times> byte list + decState) option" where
  "decodeLoop body [] i st = Some (Inr st)"
| "decodeLoop body (c # cs) i st =
     (case body i c st of
        None \<Rightarrow> None
      | Some (Inl e) \<Rightarrow> Some (Inl e)
      | Some (Inr st') \<Rightarrow> decodeLoop body cs (i + 1) st')"

text \<open>
  The result is the pair of returned values (the count and the error, \<open>None\<close> for \<open>nil\<close>)
  together with the buffer as the call leaves it.
\<close>

definition DecodeAlphabetToSlice ::
  "byte list \<Rightarrow> byte list \<Rightarrow> Alphabet \<Rightarrow> ((nat \<times> DecodeError option) \<times> byte list) option" where
  "DecodeAlphabetToSlice input buffer alphabet =
     (if encodeOrder alphabet = OrderInversed then
        do { r \<leftarrow> decodeLoop (decodeInversedSym (decodeBytes alphabet)) input 0 (buffer, 0, 0, 0);
             case r of
               Inl (e, buffer) \<Rightarrow> Some ((0, Some e), buffer)
             | Inr (buffer, o', processedBits, acc) \<Rightarrow>
                 if processedBits > 0 then
                   do { buffer \<leftarrow> store buffer o' (ucast (acc AND 0xFF));
                        Some ((o' + 1, None), buffer) }
                 else Some ((o', None), buffer) }
      else
        do { r \<leftarrow> decodeLoop (decodeNormalSym (decodeBytes alphabet)) input 0 (buffer, 0, 0, 0);
             case r of
               Inl (e, buffer) \<Rightarrow> Some ((0, Some e), buffer)
             | Inr (buffer, o', processedBits, acc) \<Rightarrow> Some ((o', None), buffer) })"

text \<open>\<open>Inl\<close> is the return \<open>(nil, err)\<close>, \<open>Inr\<close> the return \<open>(buffer[:actualLen], nil)\<close>.\<close>

definition DecodeAlphabet :: "byte list \<Rightarrow> Alphabet \<Rightarrow> (DecodeError + byte list) option" where
  "DecodeAlphabet input alphabet =
     (let buffer = replicate (DecodedLen (length input)) 0 in
      do { ((actualLen, err), buffer) \<leftarrow> DecodeAlphabetToSlice input buffer alphabet;
           case err of
             Some e \<Rightarrow> Some (Inl e)
           | None \<Rightarrow> do { out \<leftarrow> slice_to buffer actualLen; Some (Inr out) } })"

definition Decode :: "byte list \<Rightarrow> (DecodeError + byte list) option" where
  "Decode input = DecodeAlphabet input ZBASE32"

section \<open>Notions used in the statements\<close>

text \<open>The test \<open>b < 32 || b > 126\<close> of \<open>NewAlphabet\<close>, negated.\<close>

definition printable :: "byte \<Rightarrow> bool" where
  "printable b \<longleftrightarrow> \<not> (b < 32 \<or> b > 126)"

text \<open>
  The byte at index \<open>k\<close> of a string stops the scan of \<open>NewAlphabet\<close>: it is unprintable,
  or it occurred before.
\<close>

definition offending :: "byte list \<Rightarrow> nat \<Rightarrow> bool" where
  "offending s k \<longleftrightarrow> \<not> printable (s ! k) \<or> s ! k \<in> set (take k s)"

text \<open>
  The two tables of an alphabet have the sizes of the Go arrays and are inverse to each
  other, every byte that is no symbol being mapped to \<open>0xff\<close>.
\<close>

definition alphabet_inv :: "Alphabet \<Rightarrow> bool" where
  "alphabet_inv a \<longleftrightarrow>
     length (encodeSymbols a) = 32 \<and> length (decodeBytes a) = 256 \<and>
     (\<forall>i<32. decodeBytes a ! unat (encodeSymbols a ! i) = of_nat i) \<and>
     (\<forall>x. x \<notin> set (encodeSymbols a) \<longrightarrow> decodeBytes a ! unat x = 0xff)"

text \<open>
  The symbol values (indices into \<open>encodeTable\<close>) that one round of an encoding loop emits,
  with the new value of \<open>remain\<close>.
\<close>

definition inversedSyms :: "nat \<Rightarrow> byte \<Rightarrow> int32 \<Rightarrow> int32 list \<times> int32" where
  "inversedSyms i b remain =
     (if i mod 5 = 0 then
        (let x = (ucast b :: int32) in ([x AND 0x1F], signed_drop_bit 5 x))
      else if i mod 5 = 1 then
        (let x = remain OR push_bit 3 (ucast b :: int32) in
         ([x AND 0x1F, signed_drop_bit 5 x AND 0x1F], signed_drop_bit 10 x))
      else if i mod 5 = 2 then
        (let x = remain OR push_bit 1 (ucast b :: int32) in
         ([x AND 0x1F], signed_drop_bit 5 x))
      else if i mod 5 = 3 then
        (let x = remain OR push_bit 4 (ucast b :: int32) in
         ([x AND 0x1F, signed_drop_bit 5 x AND 0x1F], signed_drop_bit 10 x AND 0x3))
      else
        (let x = remain OR push_bit 2 (ucast b :: int32) in
         ([x AND 0x1F, signed_drop_bit 5 x AND 0x1F], - 1)))"

definition normalSyms :: "nat \<Rightarrow> byte \<Rightarrow> int32 \<Rightarrow> int32 list \<times> int32" where
  "normalSyms i b remain =
     (if i mod 5 = 0 then
        (let inp = (ucast b :: int32) in
         ([signed_drop_bit 3 inp AND 0x1F], push_bit 2 (inp AND 7)))
      else if i mod 5 = 1 then
        (let x = push_bit 6 remain OR (ucast b :: int32) in
         ([signed_drop_bit 6 x AND 0x1F, signed_drop_bit 1 x AND 0x1F], push_bit 4 (x AND 0x1)))
      else if i mod 5 = 2 then
        (let x = push_bit 4 remain OR (ucast b :: int32) in
         ([signed_drop_bit 4 x AND 0x1F], push_bit 1 (x AND 15)))
      else if i mod 5 = 3 then
        (let x = push_bit 7 remain OR (ucast b :: int32) in
         ([signed_drop_bit 7 x AND 0x1F, signed_drop_bit 2 x AND 0x1F], push_bit 3 (x AND 3)))
      else
        (let x = push_bit 5 remain OR (ucast b :: int32) in
         ([signed_drop_bit 5 x AND 0x1F, x AND 0x1F], - 1)))"

fun symsLoop ::
  "(nat \<Rightarrow> byte \<Rightarrow> int32 \<Rightarrow> int32 list \<times> int32) \<Rightarrow> byte list \<Rightarrow> nat \<Rightarrow> int32
    \<Rightarrow> int32 list \<times> int32" where
  "symsLoop f [] i r = ([], r)"
| "symsLoop f (b # bs) i r =
     (fst (f i b r) @ fst (symsLoop f bs (i + 1) (snd (f i b r))),
      snd (symsLoop f bs (i + 1) (snd (f i b r))))"

definition finalSyms :: "int32 \<Rightarrow> int32 list" where
  "finalSyms remain = (if 0 \<le>s remain then [remain AND 0x1F] else [])"

definition orderSyms :: "EncodeOrder \<Rightarrow> nat \<Rightarrow> byte \<Rightarrow> int32 \<Rightarrow> int32 list \<times> int32" where
  "orderSyms ord = (if ord = OrderInversed then inversedSyms else normalSyms)"

definition allSyms :: "EncodeOrder \<Rightarrow> byte list \<Rightarrow> int32 list" where
  "allSyms ord input =
     fst (symsLoop (orderSyms ord) input 0 (- 1)) @
     finalSyms (snd (symsLoop (orderSyms ord) input 0 (- 1)))"

text \<open>The list \<open>xs\<close> with \<open>ys\<close> written over it from index \<open>k\<close> on.\<close>

definition splice :: "'a list \<Rightarrow> nat \<Rightarrow> 'a list \<Rightarrow> 'a list" where
  "splice xs k ys = take k xs @ ys @ drop (k + length ys) xs"

text \<open>The number of symbols that encoding \<open>n\<close> bytes writes.\<close>

definition symbolCount :: "nat \<Rightarrow> nat" where
  "symbolCount n = 8 * (n div 5) + [0, 2, 4, 5, 7] ! (n mod 5)"

definition remain_ok :: "nat \<Rightarrow> int32 \<Rightarrow> bool" where
  "remain_ok i r \<longleftrightarrow> (if i mod 5 = 0 then r = - 1 else take_bit 5 r = r)"

text \<open>The number of symbols that the loop of \<open>EncodeToSlice\<close> has written after \<open>k\<close> bytes.\<close>

definition loopCount :: "nat \<Rightarrow> nat" where
  "loopCount k = 8 * (k div 5) + [0, 1, 3, 4, 6] ! (k mod 5)"

text \<open>
  What one round of a decoding loop does with the value \<open>v\<close> of a valid symbol: the bytes it
  writes, and the new \<open>processedBits\<close> and \<open>acc\<close>.
\<close>

definition inversedAcc :: "uint32 \<Rightarrow> nat \<times> uint32 \<Rightarrow> byte list \<times> nat \<times> uint32" where
  "inversedAcc v st =
     (case st of (pb, acc) \<Rightarrow>
        if 8 \<le> pb
        then ([ucast (acc AND 0xFF)], pb - 8 + 5, push_bit (pb - 8) v OR drop_bit 8 acc)
        else ([], pb + 5, push_bit pb v OR acc))"

definition normalAcc :: "uint32 \<Rightarrow> nat \<times> uint32 \<Rightarrow> byte list \<times> nat \<times> uint32" where
  "normalAcc v st =
     (case st of (pb, acc) \<Rightarrow>
        if 8 \<le> pb + 5
        then ([ucast (drop_bit (pb + 5 - 8) (push_bit 5 acc OR v) AND 0xFF)], pb + 5 - 8,
              (push_bit 5 acc OR v) AND (push_bit (pb + 5 - 8) 1 - 1))
        else ([], pb + 5, push_bit 5 acc OR v))"

fun accLoop ::
  "(uint32 \<Rightarrow> nat \<times> uint32 \<Rightarrow> byte list \<times> nat \<times> uint32) \<Rightarrow> uint32 list \<Rightarrow> nat \<times> uint32
    \<Rightarrow> byte list \<times> nat \<times> uint32" where
  "accLoop f [] st = ([], st)"
| "accLoop f (v # vs) st =
     (fst (f v st) @ fst (accLoop f vs (snd (f v st))), snd (accLoop f vs (snd (f v st))))"

definition orderAcc :: "EncodeOrder \<Rightarrow> uint32 \<Rightarrow> nat \<times> uint32 \<Rightarrow> byte list \<times> nat \<times> uint32" where
  "orderAcc ord = (if ord = OrderInversed then inversedAcc else normalAcc)"

definition finalBytes :: "EncodeOrder \<Rightarrow> nat \<times> uint32 \<Rightarrow> byte list" where
  "finalBytes ord st =
     (case st of (pb, acc) \<Rightarrow>
        if ord = OrderInversed \<and> 0 < pb then [ucast (acc AND 0xFF)] else [])"

definition allBytes :: "EncodeOrder \<Rightarrow> uint32 list \<Rightarrow> byte list" where
  "allBytes ord vs =
     fst (accLoop (orderAcc ord) vs (0, 0)) @ finalBytes ord (snd (accLoop (orderAcc ord) vs (0, 0)))"

text \<open>The value that the decoding table gives to a symbol, as the \<open>uint32\<close> that is accumulated.\<close>

definition symbolValue :: "byte list \<Rightarrow> byte \<Rightarrow> uint32" where
  "symbolValue tbl c = ucast (tbl ! unat c)"

definition invalidByte :: "nat \<Rightarrow> byte \<Rightarrow> DecodeError" where
  "invalidByte i c = \<lparr>Msg = ''invalid byte'', Offset = int i, Byte = c\<rparr>"

text \<open>The body of the decoding loop for an order, and the first invalid symbol of an input.\<close>

definition decodeSym ::
  "EncodeOrder \<Rightarrow> byte list \<Rightarrow> nat \<Rightarrow> byte \<Rightarrow> decState
    \<Rightarrow> (DecodeError \<times> byte list + decState) option" where
  "decodeSym ord tbl = (if ord = OrderInversed then decodeInversedSym tbl else decodeNormalSym tbl)"

section \<open>Alphabets: construction and tables\<close>

lemma unat_byte_lt: "unat (b :: byte) < 256"
  using unsigned_less [of b, where 'a = nat] by simp

lemma initDecodeLoop_length: "length (initDecodeLoop bs i t) = length t"
  by (induction bs arbitrary: i t) simp_all

lemma initDecodeLoop_other:
  "x \<notin> set bs \<Longrightarrow> initDecodeLoop bs i t ! unat x = t ! unat x"
  by (induction bs arbitrary: i t) (auto simp: word_unat_eq_iff)

lemma initDecodeLoop_nth:
  "distinct bs \<Longrightarrow> length t = 256 \<Longrightarrow> k < length bs
    \<Longrightarrow> initDecodeLoop bs i t ! unat (bs ! k) = of_nat (i + k)"
proof (induction bs arbitrary: i t k)
  case Nil
  then show ?case by simp
next
  case (Cons b bs)
  show ?case
  proof (cases k)
    case 0
    with Cons.prems show ?thesis
      by (simp add: initDecodeLoop_other unat_byte_lt)
  next
    case (Suc j)
    with Cons.prems Cons.IH [of "t[unat b := of_nat i]" j "i + 1"] show ?thesis
      by simp
  qed
qed

lemma newAlphabetLoop_ok:
  "\<forall>b \<in> set bs. printable b \<Longrightarrow> distinct bs \<Longrightarrow> \<forall>b \<in> set bs. \<not> seen du b
    \<Longrightarrow> i + length bs \<le> length sy
    \<Longrightarrow> \<exists>du'. newAlphabetLoop bs i (sy, de, du) =
          Inr (take i sy @ bs @ drop (i + length bs) sy, initDecodeLoop bs i de, du')"
proof (induction bs arbitrary: i sy de du)
  case Nil
  then show ?case by simp
next
  case (Cons b bs)
  have nb: "\<not> (b < 32 \<or> b > 126)" "\<not> seen du b"
    using Cons.prems by (auto simp: printable_def)
  have "\<exists>du'. newAlphabetLoop bs (i + 1) (sy[i := b], de[unat b := of_nat i], du(b \<mapsto> True)) =
       Inr (take (i + 1) (sy[i := b]) @ bs @ drop (i + 1 + length bs) (sy[i := b]),
            initDecodeLoop bs (i + 1) (de[unat b := of_nat i]), du')"
  proof (rule Cons.IH)
    show "\<forall>c \<in> set bs. \<not> seen (du(b \<mapsto> True)) c"
      using Cons.prems by (auto simp: seen_def)
  qed (use Cons.prems in auto)
  moreover have "take (i + 1) (sy[i := b]) = take i sy @ [b]"
    using Cons.prems by (simp add: take_Suc_conv_app_nth)
  ultimately show ?case using nb by simp
qed

lemma newAlphabetLoop_unprintable:
  "\<forall>b \<in> set pre. printable b \<Longrightarrow> distinct pre \<Longrightarrow> \<forall>b \<in> set pre. \<not> seen du b
    \<Longrightarrow> \<not> printable c
    \<Longrightarrow> newAlphabetLoop (pre @ c # rest) i (sy, de, du) = Inl (UnprintableByte c)"
proof (induction pre arbitrary: i sy de du)
  case Nil
  then show ?case by (simp add: printable_def)
next
  case (Cons b pre)
  have nb: "\<not> (b < 32 \<or> b > 126)" "\<not> seen du b"
    using Cons.prems by (auto simp: printable_def)
  have "newAlphabetLoop (pre @ c # rest) (i + 1)
          (sy[i := b], de[unat b := of_nat i], du(b \<mapsto> True)) = Inl (UnprintableByte c)"
  proof (rule Cons.IH)
    show "\<forall>x \<in> set pre. \<not> seen (du(b \<mapsto> True)) x"
      using Cons.prems by (auto simp: seen_def)
  qed (use Cons.prems in auto)
  then show ?case using nb by simp
qed

lemma newAlphabetLoop_duplicated:
  "\<forall>b \<in> set pre. printable b \<Longrightarrow> distinct pre \<Longrightarrow> \<forall>b \<in> set pre. \<not> seen du b
    \<Longrightarrow> printable c \<Longrightarrow> c \<in> set pre \<or> seen du c
    \<Longrightarrow> newAlphabetLoop (pre @ c # rest) i (sy, de, du) = Inl (DuplicatedByte c)"
proof (induction pre arbitrary: i sy de du)
  case Nil
  then show ?case by (simp add: printable_def)
next
  case (Cons b pre)
  have nb: "\<not> (b < 32 \<or> b > 126)" "\<not> seen du b"
    using Cons.prems by (auto simp: printable_def)
  have "newAlphabetLoop (pre @ c # rest) (i + 1)
          (sy[i := b], de[unat b := of_nat i], du(b \<mapsto> True)) = Inl (DuplicatedByte c)"
  proof (rule Cons.IH)
    show "\<forall>x \<in> set pre. \<not> seen (du(b \<mapsto> True)) x"
      using Cons.prems by (auto simp: seen_def)
    show "c \<in> set pre \<or> seen (du(b \<mapsto> True)) c"
      using Cons.prems by (auto simp: seen_def)
  qed (use Cons.prems in auto)
  then show ?case using nb by simp
qed

lemma NewAlphabet_ok:
  assumes "length s = 32" "\<forall>b \<in> set s. printable b" "distinct s"
  shows "NewAlphabet s ord =
           Inr \<lparr>encodeSymbols = s, decodeBytes = initDecodeTable s, encodeOrder = ord\<rparr>"
proof -
  have "\<exists>du'. newAlphabetLoop s 0 (replicate 32 0, replicate 256 0xff, Map.empty) =
          Inr (take 0 (replicate 32 0) @ s @ drop (0 + length s) (replicate 32 0),
               initDecodeLoop s 0 (replicate 256 0xff), du')"
    by (rule newAlphabetLoop_ok) (use assms in \<open>auto simp: seen_def\<close>)
  then show ?thesis
    using assms by (auto simp: NewAlphabet_def AlphabetSize_def initDecodeTable_def)
qed

lemma table_inv:
  assumes "length s = 32" "distinct s"
  shows "alphabet_inv \<lparr>encodeSymbols = s, decodeBytes = initDecodeTable s, encodeOrder = ord\<rparr>"
  using assms
  by (auto simp: alphabet_inv_def initDecodeTable_def initDecodeLoop_length
      initDecodeLoop_nth initDecodeLoop_other unat_byte_lt)

lemma distinct_zbase32: "distinct (bytes_of ''ybndrfg8ejkmcpqxot1uwisza345h769'')"
  by (simp add: bytes_of_def)
lemma distinct_rfc4648: "distinct (bytes_of ''ABCDEFGHIJKLMNOPQRSTUVWXYZ234567'')"
  by (simp add: bytes_of_def)
lemma distinct_bech32: "distinct (bytes_of ''qpzry9x8gf2tvdw0s3jn54khce6mua7l'')"
  by (simp add: bytes_of_def)

lemma inv_ZBASE32: "alphabet_inv ZBASE32"
  unfolding ZBASE32_def by (rule table_inv) (simp_all add: distinct_zbase32, simp add: bytes_of_def)
lemma inv_RFC4648: "alphabet_inv RFC4648"
  unfolding RFC4648_def by (rule table_inv) (simp_all add: distinct_rfc4648, simp add: bytes_of_def)
lemma inv_BECH32: "alphabet_inv BECH32"
  unfolding BECH32_def by (rule table_inv) (simp_all add: distinct_bech32, simp add: bytes_of_def)

lemma newAlphabetLoop_not_length: "newAlphabetLoop bs i st \<noteq> Inl InvalidLength"
proof (induction bs arbitrary: i st)
  case Nil
  then show ?case by simp
next
  case (Cons b bs)
  obtain sy de du where "st = (sy, de, du)" by (cases st)
  with Cons.IH show ?case by simp
qed

lemma clean_prefix:
  "k \<le> length s \<Longrightarrow> \<forall>j<k. \<not> offending s j
    \<Longrightarrow> (\<forall>b \<in> set (take k s). printable b) \<and> distinct (take k s)"
proof (induction k)
  case 0
  then show ?case by simp
next
  case (Suc k)
  then have "\<not> offending s k" and "k < length s" by simp_all
  with Suc show ?case
    by (simp add: take_Suc_conv_app_nth offending_def)
qed

lemma first_offending:
  assumes "k < length s" "\<forall>j<k. \<not> offending s j" "offending s k"
  shows "newAlphabetLoop s 0 (sy, de, Map.empty) =
           Inl (if printable (s ! k) then DuplicatedByte (s ! k) else UnprintableByte (s ! k))"
proof -
  have s: "s = take k s @ s ! k # drop (Suc k) s"
    using assms(1) by (rule id_take_nth_drop)
  have pre: "\<forall>b \<in> set (take k s). printable b" "distinct (take k s)"
    using clean_prefix [of k s] assms by simp_all
  have nseen: "\<forall>b \<in> set (take k s). \<not> seen Map.empty b"
    by (simp add: seen_def)
  show ?thesis
  proof (cases "printable (s ! k)")
    case True
    with assms(3) have "s ! k \<in> set (take k s) \<or> seen Map.empty (s ! k)"
      by (simp add: offending_def)
    with pre nseen True
    have "newAlphabetLoop (take k s @ s ! k # drop (Suc k) s) 0 (sy, de, Map.empty) =
            Inl (DuplicatedByte (s ! k))"
      by (intro newAlphabetLoop_duplicated)
    with s True show ?thesis by simp
  next
    case False
    with pre nseen
    have "newAlphabetLoop (take k s @ s ! k # drop (Suc k) s) 0 (sy, de, Map.empty) =
            Inl (UnprintableByte (s ! k))"
      by (intro newAlphabetLoop_unprintable)
    with s False show ?thesis by simp
  qed
qed

lemma NewAlphabet_first_offending:
  assumes "length s = 32" "k < 32" "\<forall>j<k. \<not> offending s j" "offending s k"
  shows "NewAlphabet s ord =
           Inl (if printable (s ! k) then DuplicatedByte (s ! k) else UnprintableByte (s ! k))"
  using assms first_offending [of k s "replicate 32 0" "replicate 256 0xff"]
  by (simp add: NewAlphabet_def AlphabetSize_def)

lemma NewAlphabet_clean:
  assumes "length s = 32" "\<forall>j<32. \<not> offending s j"
  shows "NewAlphabet s ord =
           Inr \<lparr>encodeSymbols = s, decodeBytes = initDecodeTable s, encodeOrder = ord\<rparr>"
  using assms clean_prefix [of 32 s] by (simp add: NewAlphabet_ok)

lemma NewAlphabet_Inr:
  assumes "NewAlphabet s ord = Inr a"
  shows "length s = 32 \<and> distinct s \<and>
         a = \<lparr>encodeSymbols = s, decodeBytes = initDecodeTable s, encodeOrder = ord\<rparr>"
proof -
  have len: "length s = 32"
  proof (rule ccontr)
    assume "length s \<noteq> 32"
    then have "NewAlphabet s ord = Inl InvalidLength"
      by (simp add: NewAlphabet_def AlphabetSize_def)
    with assms show False by simp
  qed
  have clean: "\<forall>j<32. \<not> offending s j"
  proof (rule ccontr)
    assume "\<not> (\<forall>j<32. \<not> offending s j)"
    then have "\<exists>j. j < 32 \<and> offending s j" by blast
    then obtain k where k: "k < 32 \<and> offending s k"
      and least: "\<forall>i<k. \<not> (i < 32 \<and> offending s i)"
      using exists_least_iff [of "\<lambda>j. j < 32 \<and> offending s j"] by blast
    from k least have "\<forall>i<k. \<not> offending s i" by auto
    with len k have "NewAlphabet s ord =
        Inl (if printable (s ! k) then DuplicatedByte (s ! k) else UnprintableByte (s ! k))"
      by (intro NewAlphabet_first_offending) simp_all
    with assms show False by simp
  qed
  with len have eq: "NewAlphabet s ord =
      Inr \<lparr>encodeSymbols = s, decodeBytes = initDecodeTable s, encodeOrder = ord\<rparr>"
    by (rule NewAlphabet_clean)
  have a: "a = \<lparr>encodeSymbols = s, decodeBytes = initDecodeTable s, encodeOrder = ord\<rparr>"
    using eq unfolding assms by (simp only: sum.inject)
  have "32 \<le> length s"
    using len by simp
  then have "distinct (take 32 s)"
    using clean by (rule clean_prefix [THEN conjunct2])
  moreover have "take 32 s = s"
    using len by simp
  ultimately have "distinct s" by simp
  with len a show ?thesis by blast
qed

lemma built_inv:
  assumes "NewAlphabet s ord = Inr a \<or> a = ZBASE32 \<or> a = RFC4648 \<or> a = BECH32"
  shows "alphabet_inv a"
  using assms NewAlphabet_Inr [of s ord a] table_inv [of s ord]
  by (auto simp: inv_ZBASE32 inv_RFC4648 inv_BECH32)

section \<open>Literal vectors\<close>

lemma replicate_num: "replicate (numeral k) x = x # replicate (pred_numeral k) x"
  by (simp add: numeral_eq_Suc)

lemmas encode_eval = EncodeAlphabet_def EncodedLen_def EncodeToSlice_def bytes_of_def
  encodeInversedByte_def encodeNormalByte_def emit_def load_def store_def slice_to_def
  replicate_num word_sle_eq

lemma hello_zbase32: "EncodeAlphabet (bytes_of ''hello'') ZBASE32 = Some (bytes_of ''em3ags7p'')"
  by (simp add: encode_eval ZBASE32_def)
lemma a_zbase32: "EncodeAlphabet (bytes_of ''a'') ZBASE32 = Some (bytes_of ''bd'')"
  by (simp add: encode_eval ZBASE32_def)
lemma hello_rfc4648: "EncodeAlphabet (bytes_of ''hello'') RFC4648 = Some (bytes_of ''NBSWY3DP'')"
  by (simp add: encode_eval RFC4648_def)
lemma hello_decode: "DecodeAlphabet (bytes_of ''em3ags7p'') ZBASE32 = Some (Inr (bytes_of ''hello''))"
  by code_simp
lemma encode_empty: "EncodeAlphabet [] a = Some []"
  by (simp add: encode_eval Let_def)
lemma decode_empty: "DecodeAlphabet [] a = Some (Inr [])"
  by (simp add: DecodeAlphabet_def DecodedLen_def DecodeAlphabetToSlice_def slice_to_def)
lemma tooshort: "NewAlphabet (bytes_of ''tooshort'') OrderNormal = Inl InvalidLength"
  by (simp add: NewAlphabet_def AlphabetSize_def bytes_of_def)
lemma aacdef: "NewAlphabet (bytes_of ''aacdefghijklmnopqrstuvwxyz234567'') OrderNormal = Inl (DuplicatedByte 0x61)"
  by (simp add: NewAlphabet_def AlphabetSize_def bytes_of_def seen_def)

text \<open>
  Claim C8. The literal vectors: \<open>hello\<close> encodes to \<open>em3ags7p\<close> under ZBASE32 and that
  string decodes back to \<open>hello\<close>; \<open>a\<close> encodes to \<open>bd\<close> under ZBASE32; \<open>hello\<close> encodes
  to \<open>NBSWY3DP\<close> under RFC4648. For every alphabet, the empty byte sequence encodes to the
  empty symbol sequence, and the empty symbol sequence decodes, without error, to the empty
  byte sequence.
\<close>

theorem literal_vectors:
  "EncodeAlphabet (bytes_of ''hello'') ZBASE32 = Some (bytes_of ''em3ags7p'') \<and>
   DecodeAlphabet (bytes_of ''em3ags7p'') ZBASE32 = Some (Inr (bytes_of ''hello'')) \<and>
   EncodeAlphabet (bytes_of ''a'') ZBASE32 = Some (bytes_of ''bd'') \<and>
   EncodeAlphabet (bytes_of ''hello'') RFC4648 = Some (bytes_of ''NBSWY3DP'') \<and>
   EncodeAlphabet [] a = Some [] \<and>
   DecodeAlphabet [] a = Some (Inr [])"
  using hello_zbase32 hello_decode a_zbase32 hello_rfc4648 encode_empty decode_empty
  by blast

section \<open>Claims about alphabets\<close>

text \<open>
  Claim C5. For every alphabet that \<open>NewAlphabet\<close> returns, and for each of \<open>ZBASE32\<close>,
  \<open>RFC4648\<close> and \<open>BECH32\<close>: the tables have 32 and 256 entries,
  \<open>decodeBytes[encodeSymbols[i]] = i\<close> for every \<open>i\<close> from 0 to 31, and
  \<open>decodeBytes[x] = 0xff\<close> for every byte \<open>x\<close> that does not occur in \<open>encodeSymbols\<close>.
\<close>

theorem alphabet_bijective:
  assumes "NewAlphabet s ord = Inr a \<or> a = ZBASE32 \<or> a = RFC4648 \<or> a = BECH32"
  shows "length (encodeSymbols a) = 32 \<and> length (decodeBytes a) = 256 \<and>
         (\<forall>i<32. decodeBytes a ! unat (encodeSymbols a ! i) = of_nat i) \<and>
         (\<forall>x. x \<notin> set (encodeSymbols a) \<longrightarrow> decodeBytes a ! unat x = 0xff)"
  using built_inv [OF assms] by (simp add: alphabet_inv_def)

theorem alphabet_bijective_witness:
  "decodeBytes ZBASE32 ! unat (encodeSymbols ZBASE32 ! 8) = 8 \<and>
   decodeBytes ZBASE32 ! unat (0x40 :: byte) = 0xff"
proof -
  have h: "NewAlphabet [] OrderNormal = Inr ZBASE32 \<or> ZBASE32 = ZBASE32 \<or> ZBASE32 = RFC4648 \<or> ZBASE32 = BECH32"
    by simp
  have "(0x40 :: byte) \<notin> set (encodeSymbols ZBASE32)"
    by (simp add: ZBASE32_def bytes_of_def)
  with alphabet_bijective [OF h] show ?thesis by auto
qed

text \<open>
  Claim C6, as amended. \<open>NewAlphabet\<close> fails with the invalid-length error exactly when the
  string has not 32 bytes. Otherwise it scans the string from left to right and stops at the
  first byte that is outside \<open>0x20\<close> to \<open>0x7E\<close> or that occurred before: at an unprintable byte
  it fails with the unprintable-byte error for this byte, at a printable byte that occurred
  before with the duplicated-byte error for this byte. A string with no such byte gives the
  alphabet whose symbols are the string and whose decoding table is built from it. The string
  \<open>tooshort\<close> fails with the length error, and \<open>aacdefghijklmnopqrstuvwxyz234567\<close> with the
  duplicated-byte error for \<open>a\<close>.
\<close>

theorem NewAlphabet_errors:
  "(NewAlphabet s ord = Inl InvalidLength \<longleftrightarrow> length s \<noteq> 32) \<and>
   (length s = 32 \<and> k < 32 \<and> (\<forall>j<k. \<not> offending s j) \<and> offending s k \<longrightarrow>
      NewAlphabet s ord =
        Inl (if printable (s ! k) then DuplicatedByte (s ! k) else UnprintableByte (s ! k))) \<and>
   (length s = 32 \<and> (\<forall>j<32. \<not> offending s j) \<longrightarrow>
      NewAlphabet s ord =
        Inr \<lparr>encodeSymbols = s, decodeBytes = initDecodeTable s, encodeOrder = ord\<rparr>) \<and>
   NewAlphabet (bytes_of ''tooshort'') OrderNormal = Inl InvalidLength \<and>
   NewAlphabet (bytes_of ''aacdefghijklmnopqrstuvwxyz234567'') OrderNormal =
     Inl (DuplicatedByte 0x61)"
proof -
  have "NewAlphabet s ord = Inl InvalidLength \<longleftrightarrow> length s \<noteq> 32"
    using newAlphabetLoop_not_length [of s 0 "(replicate 32 0, replicate 256 0xff, Map.empty)"]
    by (auto simp: NewAlphabet_def AlphabetSize_def split: sum.splits)
  then show ?thesis
    using NewAlphabet_first_offending [of s k ord] NewAlphabet_clean [of s ord] tooshort aacdef
    by blast
qed

lemma All_less_numeral: "(\<forall>j<numeral n. P j) \<longleftrightarrow> P (pred_numeral n) \<and> (\<forall>j<pred_numeral n. P j)"
  by (simp add: numeral_eq_Suc less_Suc_eq) blast

theorem NewAlphabet_errors_witness:
  "NewAlphabet (bytes_of ''abcdefghijklmnopqrstuvwxyz23456'' @ [0x01]) OrderNormal =
     Inl (UnprintableByte 0x01)"
proof -
  define s where "s = bytes_of ''abcdefghijklmnopqrstuvwxyz23456'' @ [0x01]"
  have "length s = 32 \<and> (31::nat) < 32 \<and> (\<forall>j<31. \<not> offending s j) \<and> offending s 31"
    by (simp add: s_def bytes_of_def offending_def printable_def All_less_numeral)
  with NewAlphabet_errors [of s OrderNormal 31]
  have "NewAlphabet s OrderNormal =
      Inl (if printable (s ! 31) then DuplicatedByte (s ! 31) else UnprintableByte (s ! 31))"
    by blast
  then show ?thesis
    by (simp add: s_def bytes_of_def printable_def)
qed

text \<open>
  The claim C6 as it was stated lets every string of 32 bytes with a byte outside the
  printable range fail with the unprintable-byte error. This string has the byte \<open>0x01\<close> at
  index 31, and fails with the duplicated-byte error, for the \<open>a\<close> at index 1.
\<close>

theorem NewAlphabet_errors_counterexample:
  "length (bytes_of ''aacdefghijklmnopqrstuvwxyz23456'' @ [0x01]) = 32 \<and>
   (bytes_of ''aacdefghijklmnopqrstuvwxyz23456'' @ [0x01]) ! 31 = 0x01 \<and>
   ((0x01 :: byte) < 32 \<or> (0x01 :: byte) > 126) \<and>
   NewAlphabet (bytes_of ''aacdefghijklmnopqrstuvwxyz23456'' @ [0x01]) OrderNormal =
     Inl (DuplicatedByte 0x61)"
  by (simp add: NewAlphabet_def AlphabetSize_def bytes_of_def seen_def)

lemma splice_length: "k + length ys \<le> length xs \<Longrightarrow> length (splice xs k ys) = length xs"
  by (simp add: splice_def)

lemma splice_Nil: "k \<le> length xs \<Longrightarrow> splice xs k [] = xs"
  by (simp add: splice_def)

lemma splice_append:
  "k + length ys + length zs \<le> length xs
    \<Longrightarrow> splice (splice xs k ys) (k + length ys) zs = splice xs k (ys @ zs)"
  by (simp add: splice_def ac_simps)

lemma update_splice: "k < length xs \<Longrightarrow> xs[k := v] = splice xs k [v]"
  by (simp add: splice_def upd_conv_take_nth_drop)

lemma splice_twice:
  "Suc k < length xs \<Longrightarrow> splice (splice xs k [v]) (Suc k) [w] = splice xs k [v, w]"
  using splice_append [of k "[v]" "[w]" xs] by simp

lemma unat_and31: "unat (x AND 0x1F :: int32) < 32"
proof -
  have "unat (x AND 0x1F) \<le> unat (0x1F :: int32)"
    by (rule word_and_le1 [THEN word_le_nat_alt [THEN iffD1]])
  then show ?thesis by simp
qed

lemma emit_and31:
  "length tbl = 32 \<Longrightarrow> k < length out
    \<Longrightarrow> emit tbl out k (x AND 0x1F) = Some (splice out k [tbl ! unat (x AND 0x1F)], Suc k)"
  by (simp add: emit_def load_def store_def unat_and31 update_splice)

lemma encodeInversedByte_refine:
  assumes "length tbl = 32" "k + length (fst (inversedSyms i b r)) \<le> length out"
  shows "encodeInversedByte tbl i b (out, k, r) =
           Some (splice out k (map (\<lambda>v. tbl ! unat v) (fst (inversedSyms i b r))),
                 k + length (fst (inversedSyms i b r)), snd (inversedSyms i b r))"
  using assms
  by (simp add: encodeInversedByte_def inversedSyms_def Let_def emit_and31
      splice_length splice_twice split: if_splits)

lemma encodeNormalByte_refine:
  assumes "length tbl = 32" "k + length (fst (normalSyms i b r)) \<le> length out"
  shows "encodeNormalByte tbl i b (out, k, r) =
           Some (splice out k (map (\<lambda>v. tbl ! unat v) (fst (normalSyms i b r))),
                 k + length (fst (normalSyms i b r)), snd (normalSyms i b r))"
  using assms
  by (simp add: encodeNormalByte_def normalSyms_def Let_def emit_and31
      splice_length splice_twice split: if_splits)

lemma encodeLoop_refine:
  assumes step: "\<And>i b out k r. k + length (fst (f i b r)) \<le> length out \<Longrightarrow>
      body i b (out, k, r) =
        Some (splice out k (map g (fst (f i b r))), k + length (fst (f i b r)), snd (f i b r))"
  shows "k + length (fst (symsLoop f input i r)) \<le> length out \<Longrightarrow>
    encodeLoop body input i (out, k, r) =
      Some (splice out k (map g (fst (symsLoop f input i r))),
            k + length (fst (symsLoop f input i r)), snd (symsLoop f input i r))"
proof (induction input arbitrary: i out k r)
  case Nil
  then show ?case by (simp add: splice_Nil)
next
  case (Cons b bs)
  let ?vs = "fst (f i b r)" and ?r = "snd (f i b r)"
  let ?ws = "fst (symsLoop f bs (i + 1) ?r)"
  have room: "k + length ?vs + length ?ws \<le> length out"
    using Cons.prems by simp
  then have s1: "body i b (out, k, r) = Some (splice out k (map g ?vs), k + length ?vs, ?r)"
    by (intro step) simp
  have len: "length (splice out k (map g ?vs)) = length out"
    using room by (simp add: splice_length)
  have "encodeLoop body bs (i + 1) (splice out k (map g ?vs), k + length ?vs, ?r) =
      Some (splice (splice out k (map g ?vs)) (k + length ?vs) (map g ?ws),
            k + length ?vs + length ?ws, snd (symsLoop f bs (i + 1) ?r))"
    using room len by (intro Cons.IH) simp
  moreover have "splice (splice out k (map g ?vs)) (k + length ?vs) (map g ?ws) =
      splice out k (map g (?vs @ ?ws))"
    using room splice_append [of k "map g ?vs" "map g ?ws" out] by simp
  ultimately show ?case
    using s1 by (simp add: add.assoc)
qed

lemma mask_numerals:
  "(0x1F :: 32 word) = mask 5" "(0xFF :: 32 word) = mask 8" "(3 :: 32 word) = mask 2"
  "(7 :: 32 word) = mask 3" "(15 :: 32 word) = mask 4"
  by (simp_all add: mask_eq_decr_exp)

lemma sle0_iff: "0 \<le>s (w :: 32 word) \<longleftrightarrow> \<not> bit w 31"
  using bit_last_iff [of w] by (simp add: word_sle_eq not_less)

lemma inversedSyms_length:
  "length (fst (inversedSyms i b r)) = (if i mod 5 = 0 \<or> i mod 5 = 2 then 1 else 2)"
  by (simp add: inversedSyms_def Let_def)

lemma normalSyms_length:
  "length (fst (normalSyms i b r)) = (if i mod 5 = 0 \<or> i mod 5 = 2 then 1 else 2)"
  by (simp add: normalSyms_def Let_def)

lemma orderSyms_length:
  "length (fst (orderSyms ord i b r)) = (if i mod 5 = 0 \<or> i mod 5 = 2 then 1 else 2)"
  by (simp add: orderSyms_def inversedSyms_length normalSyms_length)

lemma mod5_cases: "(i::nat) mod 5 \<in> {0, 1, 2, 3, 4}"
  by simp arith

lemma step_count:
  "loopCount i + (if i mod 5 = 0 \<or> i mod 5 = 2 then 1 else 2) = loopCount (Suc i)"
  using mod5_cases [of i]
  by (elim insertE emptyE) (simp_all add: loopCount_def mod_Suc div_Suc)

lemma symsLoop_length:
  assumes "\<And>i b r. length (fst (f i b r)) = (if i mod 5 = 0 \<or> i mod 5 = 2 then 1 else 2)"
  shows "loopCount i + length (fst (symsLoop f input i r)) = loopCount (i + length input)"
proof (induction input arbitrary: i r)
  case Nil
  then show ?case by simp
next
  case (Cons b bs)
  have "loopCount i + length (fst (symsLoop f (b # bs) i r)) =
      loopCount i + (if i mod 5 = 0 \<or> i mod 5 = 2 then 1 else 2) +
      length (fst (symsLoop f bs (Suc i) (snd (f i b r))))"
    by (simp add: assms)
  also have "\<dots> = loopCount (Suc i) + length (fst (symsLoop f bs (Suc i) (snd (f i b r))))"
    by (simp only: step_count)
  also have "\<dots> = loopCount (Suc i + length bs)"
    by (rule Cons.IH)
  finally show ?case by simp
qed

lemma symbolCount_eq:
  "symbolCount n = loopCount n + (if n mod 5 = 0 then 0 else 1)"
  using mod5_cases [of n]
  by (elim insertE emptyE) (simp_all add: symbolCount_def loopCount_def)

lemma symbolCount_EncodedLen: "symbolCount n < EncodedLen n"
  using mod5_cases [of n]
  by (elim insertE emptyE) (simp_all add: symbolCount_def EncodedLen_def)

lemma inversedSyms_remain:
  assumes "remain_ok i r"
  shows "remain_ok (Suc i) (snd (inversedSyms i b r))"
proof -
  consider "i mod 5 = 0" | "i mod 5 = 1" | "i mod 5 = 2" | "i mod 5 = 3" | "i mod 5 = 4"
    using mod5_cases [of i] by auto
  then show ?thesis
  proof cases
    case 1
    have "take_bit 5 (signed_drop_bit 5 (ucast b :: int32)) = signed_drop_bit 5 (ucast b)"
      by (rule bit_word_eqI) (auto simp: bit_simps simp del: push_bit_Suc push_bit_and dest: bit_imp_le_length)
    with 1 show ?thesis
      by (simp add: remain_ok_def inversedSyms_def Let_def mod_Suc)
  next
    case 2
    with assms have r: "take_bit 5 r = r" by (simp add: remain_ok_def)
    have "take_bit 5 (signed_drop_bit 10 (take_bit 5 r OR push_bit 3 (ucast b :: int32))) =
        signed_drop_bit 10 (take_bit 5 r OR push_bit 3 (ucast b))"
      by (rule bit_word_eqI) (auto simp: bit_simps simp del: push_bit_Suc push_bit_and dest: bit_imp_le_length)
    with 2 r show ?thesis
      by (simp add: remain_ok_def inversedSyms_def Let_def mod_Suc)
  next
    case 3
    with assms have r: "take_bit 5 r = r" by (simp add: remain_ok_def)
    have "take_bit 5 (signed_drop_bit 5 (take_bit 5 r OR push_bit 1 (ucast b :: int32))) =
        signed_drop_bit 5 (take_bit 5 r OR push_bit 1 (ucast b))"
      by (rule bit_word_eqI) (auto simp: bit_simps simp del: push_bit_Suc push_bit_and dest: bit_imp_le_length)
    with 3 r show ?thesis
      by (simp add: remain_ok_def inversedSyms_def Let_def mod_Suc)
  next
    case 4
    have "take_bit 5 (signed_drop_bit 10 (r OR push_bit 4 (ucast b :: int32)) AND mask 2) =
        signed_drop_bit 10 (r OR push_bit 4 (ucast b)) AND mask 2"
      by (rule bit_word_eqI) (auto simp: bit_simps simp del: push_bit_Suc push_bit_and dest: bit_imp_le_length)
    with 4 show ?thesis
      by (simp add: remain_ok_def inversedSyms_def Let_def mod_Suc mask_numerals)
  next
    case 5
    then show ?thesis
      by (simp add: remain_ok_def inversedSyms_def Let_def mod_Suc)
  qed
qed

lemma normalSyms_remain: "remain_ok (Suc i) (snd (normalSyms i b r))"
proof -
  consider "i mod 5 = 0" | "i mod 5 = 1" | "i mod 5 = 2" | "i mod 5 = 3" | "i mod 5 = 4"
    using mod5_cases [of i] by auto
  then show ?thesis
  proof cases
    case 1
    have "take_bit 5 (push_bit 2 ((ucast b :: int32) AND mask 3)) = push_bit 2 (ucast b AND mask 3)"
      by (rule bit_word_eqI) (auto simp: bit_simps simp del: push_bit_Suc push_bit_and dest: bit_imp_le_length)
    with 1 show ?thesis
      by (simp add: remain_ok_def normalSyms_def Let_def mod_Suc mask_numerals del: push_bit_and)
  next
    case 2
    have "take_bit 5 (push_bit 4 ((push_bit 6 r OR (ucast b :: int32)) AND 1)) =
        push_bit 4 ((push_bit 6 r OR ucast b) AND 1)"
      by (rule bit_word_eqI) (auto simp: bit_simps simp del: push_bit_Suc push_bit_and dest: bit_imp_le_length)
    with 2 show ?thesis
      by (simp add: remain_ok_def normalSyms_def Let_def mod_Suc del: push_bit_and)
  next
    case 3
    have "take_bit 5 (push_bit 1 ((push_bit 4 r OR (ucast b :: int32)) AND mask 4)) =
        push_bit 1 ((push_bit 4 r OR ucast b) AND mask 4)"
      by (rule bit_word_eqI) (auto simp: bit_simps simp del: push_bit_Suc push_bit_and dest: bit_imp_le_length)
    with 3 show ?thesis
      by (simp add: remain_ok_def normalSyms_def Let_def mod_Suc mask_numerals del: push_bit_and)
  next
    case 4
    have "take_bit 5 (push_bit 3 ((push_bit 7 r OR (ucast b :: int32)) AND mask 2)) =
        push_bit 3 ((push_bit 7 r OR ucast b) AND mask 2)"
      by (rule bit_word_eqI) (auto simp: bit_simps simp del: push_bit_Suc push_bit_and dest: bit_imp_le_length)
    with 4 show ?thesis
      by (simp add: remain_ok_def normalSyms_def Let_def mod_Suc mask_numerals del: push_bit_and)
  next
    case 5
    then show ?thesis
      by (simp add: remain_ok_def normalSyms_def Let_def mod_Suc)
  qed
qed

lemma orderSyms_remain: "remain_ok i r \<Longrightarrow> remain_ok (Suc i) (snd (orderSyms ord i b r))"
  by (simp add: orderSyms_def inversedSyms_remain normalSyms_remain)

lemma symsLoop_remain:
  "remain_ok i r \<Longrightarrow> remain_ok (i + length input) (snd (symsLoop (orderSyms ord) input i r))"
proof (induction input arbitrary: i r)
  case Nil
  then show ?case by simp
next
  case (Cons b bs)
  from Cons.prems have "remain_ok (Suc i) (snd (orderSyms ord i b r))"
    by (rule orderSyms_remain)
  then have "remain_ok (Suc i + length bs)
      (snd (symsLoop (orderSyms ord) bs (Suc i) (snd (orderSyms ord i b r))))"
    by (rule Cons.IH)
  then show ?case by simp
qed

lemma remain_ok_final:
  assumes "remain_ok n r"
  shows "finalSyms r = (if n mod 5 = 0 then [] else [r])"
proof (cases "n mod 5 = 0")
  case True
  with assms show ?thesis by (simp add: remain_ok_def finalSyms_def word_sle_eq)
next
  case False
  with assms have r: "take_bit 5 r = r" by (simp add: remain_ok_def)
  have "\<not> bit (take_bit 5 r) 31" by (simp add: bit_simps)
  with r have "0 \<le>s r" by (simp add: sle0_iff)
  moreover have "r AND 0x1F = r"
    using r by (simp add: mask_numerals take_bit_eq_mask)
  ultimately show ?thesis using False by (simp add: finalSyms_def)
qed


lemma allSyms_eq:
  "allSyms ord input =
     fst (symsLoop (orderSyms ord) input 0 (- 1)) @
     (if length input mod 5 = 0 then [] else [snd (symsLoop (orderSyms ord) input 0 (- 1))])"
proof -
  have "remain_ok 0 (- 1)" by (simp add: remain_ok_def)
  then have "remain_ok (0 + length input) (snd (symsLoop (orderSyms ord) input 0 (- 1)))"
    by (rule symsLoop_remain)
  then show ?thesis
    using remain_ok_final [of "length input"] by (simp add: allSyms_def)
qed

lemma loop_count:
  "length (fst (symsLoop (orderSyms ord) input 0 r)) = loopCount (length input)"
  using symsLoop_length [of "orderSyms ord" 0 input r]
  by (simp add: orderSyms_length loopCount_def)

lemma allSyms_length: "length (allSyms ord input) = symbolCount (length input)"
  by (simp add: allSyms_eq loop_count symbolCount_eq)

lemma EncodeToSlice_refine:
  assumes tbl: "length (encodeSymbols a) = 32"
    and room: "symbolCount (length input) \<le> length output"
  shows "EncodeToSlice input output a =
           Some (symbolCount (length input),
                 splice output 0 (map (\<lambda>v. encodeSymbols a ! unat v) (allSyms (encodeOrder a) input)))"
proof -
  let ?g = "\<lambda>v. encodeSymbols a ! unat v"
  let ?f = "orderSyms (encodeOrder a)"
  let ?vs = "fst (symsLoop ?f input 0 (- 1))" and ?r = "snd (symsLoop ?f input 0 (- 1))"
  let ?body = "if encodeOrder a = OrderInversed then encodeInversedByte (encodeSymbols a)
               else encodeNormalByte (encodeSymbols a)"
  have n: "length ?vs = loopCount (length input)"
    by (rule loop_count)
  have room1: "0 + length ?vs \<le> length output"
    using room n by (simp add: symbolCount_eq)
  have step: "\<And>i b out k r. k + length (fst (?f i b r)) \<le> length out \<Longrightarrow>
      ?body i b (out, k, r) =
        Some (splice out k (map ?g (fst (?f i b r))), k + length (fst (?f i b r)), snd (?f i b r))"
    using tbl by (cases "encodeOrder a = OrderInversed")
      (simp_all add: orderSyms_def encodeInversedByte_refine encodeNormalByte_refine)
  have loop: "encodeLoop ?body input 0 (output, 0, - 1) =
      Some (splice output 0 (map ?g ?vs), 0 + length ?vs, ?r)"
    using step room1 by (rule encodeLoop_refine)
  have rok: "remain_ok (length input) ?r"
    using symsLoop_remain [of 0 "- 1" input "encodeOrder a"] by (simp add: remain_ok_def)
  show ?thesis
  proof (cases "length input mod 5 = 0")
    case True
    with rok have "\<not> 0 \<le>s ?r"
      by (simp add: remain_ok_def word_sle_eq)
    with loop True n show ?thesis
      by (simp add: EncodeToSlice_def Let_def allSyms_eq symbolCount_eq split: if_splits)
  next
    case False
    with rok have fin: "finalSyms ?r = [?r]"
      using remain_ok_final [of "length input" ?r] by simp
    then have pos: "0 \<le>s ?r" and msk: "?r AND 0x1F = ?r"
      by (simp_all add: finalSyms_def split: if_splits)
    have lt: "length ?vs < length output"
      using room n False by (simp add: symbolCount_eq)
    have "emit (encodeSymbols a) (splice output 0 (map ?g ?vs)) (length ?vs) (?r AND 0x1F) =
        Some (splice (splice output 0 (map ?g ?vs)) (length ?vs) [?g (?r AND 0x1F)], Suc (length ?vs))"
      using tbl lt by (intro emit_and31) (simp_all add: splice_length)
    moreover have "splice (splice output 0 (map ?g ?vs)) (0 + length (map ?g ?vs)) [?g ?r] =
        splice output 0 (map ?g ?vs @ [?g ?r])"
      using lt by (intro splice_append) simp
    ultimately show ?thesis
      using loop False n pos msk
      by (simp add: EncodeToSlice_def Let_def allSyms_eq symbolCount_eq split: if_splits)
  qed
qed

lemma EncodeAlphabet_refine:
  assumes "length (encodeSymbols a) = 32"
  shows "EncodeAlphabet input a =
           Some (map (\<lambda>v. encodeSymbols a ! unat v) (allSyms (encodeOrder a) input))"
proof -
  let ?n = "length input"
  have lt: "symbolCount ?n < EncodedLen ?n"
    by (rule symbolCount_EncodedLen)
  then have "EncodeToSlice input (replicate (EncodedLen ?n) 0) a =
      Some (symbolCount ?n,
            splice (replicate (EncodedLen ?n) 0) 0
              (map (\<lambda>v. encodeSymbols a ! unat v) (allSyms (encodeOrder a) input)))"
    using assms by (intro EncodeToSlice_refine) simp_all
  then show ?thesis
    using lt by (simp add: EncodeAlphabet_def Let_def slice_to_def splice_def allSyms_length)
qed

section \<open>The two orders on the same input\<close>










section \<open>The count returned by EncodeToSlice\<close>

text \<open>
  Claim C2, as amended. For every input \<open>b\<close> and every alphabet, with an output buffer of at
  least \<open>EncodedLen(len(b))\<close> bytes, \<open>EncodeToSlice\<close> returns the count
  \<open>8 * (len(b) / 5) + [0, 2, 4, 5, 7][len(b) % 5]\<close>. This is \<open>EncodedLen(len(b)) - 1\<close> when
  \<open>len(b) % 5\<close> is 0, 1 or 2, and \<open>EncodedLen(len(b)) - 2\<close> when it is 3 or 4; it never equals
  \<open>EncodedLen(len(b))\<close>.
\<close>

theorem EncodeToSlice_count:
  assumes "length (encodeSymbols a) = 32" and "EncodedLen (length b) \<le> length output"
  shows "map_option fst (EncodeToSlice b output a) = Some (symbolCount (length b)) \<and>
         symbolCount (length b) + (if length b mod 5 < 3 then 1 else 2) = EncodedLen (length b)"
proof -
  have "symbolCount (length b) \<le> length output"
    using symbolCount_EncodedLen [of "length b"] assms(2) by simp
  with assms(1) have "map_option fst (EncodeToSlice b output a) = Some (symbolCount (length b))"
    by (simp add: EncodeToSlice_refine)
  moreover have "symbolCount (length b) + (if length b mod 5 < 3 then 1 else 2) = EncodedLen (length b)"
    using mod5_cases [of "length b"]
    by (elim insertE emptyE) (simp_all add: symbolCount_def EncodedLen_def)
  ultimately show ?thesis by blast
qed

theorem EncodeToSlice_count_witness:
  "map_option fst (EncodeToSlice (bytes_of ''hello'') (replicate 9 0) ZBASE32) = Some 8 \<and>
   (8::nat) + 1 = EncodedLen 5"
  using EncodeToSlice_count [of ZBASE32 "bytes_of ''hello''" "replicate 9 0"]
  by (simp add: ZBASE32_def bytes_of_def EncodedLen_def symbolCount_def)

text \<open>
  The claim C2 as it was stated makes the count equal to \<open>EncodedLen(len(b))\<close> when \<open>len(b)\<close>
  is no multiple of 5. For the one byte \<open>a\<close> the count is 2 and \<open>EncodedLen(1)\<close> is 3.
\<close>

theorem EncodeToSlice_count_counterexample:
  "map_option fst (EncodeToSlice [0x61] (replicate (EncodedLen 1) 0) ZBASE32) = Some 2 \<and>
   EncodedLen 1 = 3 \<and> (1::nat) mod 5 \<noteq> 0"
  by (simp add: encode_eval ZBASE32_def)

lemma load_byte: "length tbl = 256 \<Longrightarrow> load tbl (unat (c :: byte)) = Some (tbl ! unat c)"
  by (simp add: load_def unat_byte_lt)

lemma store_splice: "k < length buf \<Longrightarrow> store buf k v = Some (splice buf k [v])"
  by (simp add: store_def update_splice)

lemma decodeInversedSym_refine:
  assumes "length tbl = 256" "k + length (fst (inversedAcc v (pb, acc))) \<le> length buf"
  shows "decodeInversedSym tbl i c (buf, k, pb, acc) =
           Some (if tbl ! unat c = 0xff
                 then Inl (invalidByte i c,
                           splice buf k (fst (inversedAcc (symbolValue tbl c) (pb, acc))))
                 else Inr (splice buf k (fst (inversedAcc (symbolValue tbl c) (pb, acc))),
                           k + length (fst (inversedAcc (symbolValue tbl c) (pb, acc))),
                           snd (inversedAcc (symbolValue tbl c) (pb, acc))))"
  using assms
  by (cases "8 \<le> pb")
    (simp_all add: decodeInversedSym_def inversedAcc_def load_byte store_splice splice_Nil
      symbolValue_def invalidByte_def)

lemma decodeNormalSym_valid:
  assumes "length tbl = 256" "tbl ! unat c \<noteq> 0xff"
    "k + length (fst (normalAcc (symbolValue tbl c) (pb, acc))) \<le> length buf"
  shows "decodeNormalSym tbl i c (buf, k, pb, acc) =
           Some (Inr (splice buf k (fst (normalAcc (symbolValue tbl c) (pb, acc))),
                      k + length (fst (normalAcc (symbolValue tbl c) (pb, acc))),
                      snd (normalAcc (symbolValue tbl c) (pb, acc))))"
  using assms
  by (cases "8 \<le> pb + 5")
    (simp_all add: decodeNormalSym_def normalAcc_def load_byte store_splice splice_Nil
      symbolValue_def Let_def)

lemma decodeNormalSym_invalid:
  assumes "length tbl = 256" "tbl ! unat c = 0xff"
  shows "decodeNormalSym tbl i c (buf, k, pb, acc) = Some (Inl (invalidByte i c, buf))"
  using assms
  by (simp add: decodeNormalSym_def load_byte invalidByte_def)

lemma accLoop_append:
  "accLoop f (vs @ ws) st =
     (fst (accLoop f vs st) @ fst (accLoop f ws (snd (accLoop f vs st))),
      snd (accLoop f ws (snd (accLoop f vs st))))"
  by (induction vs arbitrary: st) simp_all

lemma decodeLoop_valid:
  assumes step: "\<And>i c buf k st. tbl ! unat c \<noteq> 0xff \<Longrightarrow>
      k + length (fst (f (symbolValue tbl c) st)) \<le> length buf \<Longrightarrow>
      body i c (buf, k, st) =
        Some (Inr (splice buf k (fst (f (symbolValue tbl c) st)),
                   k + length (fst (f (symbolValue tbl c) st)), snd (f (symbolValue tbl c) st)))"
  shows "\<forall>c \<in> set input. tbl ! unat c \<noteq> 0xff \<Longrightarrow>
    k + length (fst (accLoop f (map (symbolValue tbl) input) st)) \<le> length buf \<Longrightarrow>
    decodeLoop body input i (buf, k, st) =
      Some (Inr (splice buf k (fst (accLoop f (map (symbolValue tbl) input) st)),
                 k + length (fst (accLoop f (map (symbolValue tbl) input) st)),
                 snd (accLoop f (map (symbolValue tbl) input) st)))"
proof (induction input arbitrary: i buf k st)
  case Nil
  then show ?case by (simp add: splice_Nil)
next
  case (Cons c cs)
  let ?os = "fst (f (symbolValue tbl c) st)" and ?st = "snd (f (symbolValue tbl c) st)"
  let ?ps = "fst (accLoop f (map (symbolValue tbl) cs) ?st)"
  have room: "k + length ?os + length ?ps \<le> length buf"
    using Cons.prems by simp
  have valid: "tbl ! unat c \<noteq> 0xff"
    using Cons.prems by simp
  have "k + length ?os \<le> length buf"
    using room by linarith
  with valid have s1: "body i c (buf, k, st) = Some (Inr (splice buf k ?os, k + length ?os, ?st))"
    by (rule step)
  have "decodeLoop body cs (i + 1) (splice buf k ?os, k + length ?os, ?st) =
      Some (Inr (splice (splice buf k ?os) (k + length ?os) ?ps, k + length ?os + length ?ps,
                 snd (accLoop f (map (symbolValue tbl) cs) ?st)))"
    using Cons.prems room by (intro Cons.IH) (simp_all add: splice_length)
  moreover have "splice (splice buf k ?os) (k + length ?os) ?ps = splice buf k (?os @ ?ps)"
    using room by (intro splice_append)
  ultimately show ?case
    using s1 by (simp add: add.assoc)
qed

lemma decodeLoop_invalid:
  assumes step: "\<And>i c buf k st. tbl ! unat c \<noteq> 0xff \<Longrightarrow>
      k + length (fst (f (symbolValue tbl c) st)) \<le> length buf \<Longrightarrow>
      body i c (buf, k, st) =
        Some (Inr (splice buf k (fst (f (symbolValue tbl c) st)),
                   k + length (fst (f (symbolValue tbl c) st)), snd (f (symbolValue tbl c) st)))"
    and bad: "\<And>i c buf k st. tbl ! unat c = 0xff \<Longrightarrow>
      k + length (fst (f (symbolValue tbl c) st)) \<le> length buf \<Longrightarrow>
      \<exists>buf'. body i c (buf, k, st) = Some (Inl (invalidByte i c, buf'))"
  shows "\<forall>x \<in> set pre. tbl ! unat x \<noteq> 0xff \<Longrightarrow> tbl ! unat c = 0xff \<Longrightarrow>
    k + length (fst (accLoop f (map (symbolValue tbl) (pre @ [c])) st)) \<le> length buf \<Longrightarrow>
    \<exists>buf'. decodeLoop body (pre @ c # rest) i (buf, k, st) =
      Some (Inl (invalidByte (i + length pre) c, buf'))"
proof (induction pre arbitrary: i buf k st)
  case Nil
  then have "k + length (fst (f (symbolValue tbl c) st)) \<le> length buf"
    by simp
  with Nil.prems(2) obtain buf' where "body i c (buf, k, st) = Some (Inl (invalidByte i c, buf'))"
    using bad by blast
  then show ?case by simp
next
  case (Cons x xs)
  let ?os = "fst (f (symbolValue tbl x) st)" and ?st = "snd (f (symbolValue tbl x) st)"
  let ?ps = "fst (accLoop f (map (symbolValue tbl) (xs @ [c])) ?st)"
  have room: "k + length ?os + length ?ps \<le> length buf"
    using Cons.prems by simp
  have valid: "tbl ! unat x \<noteq> 0xff"
    using Cons.prems by simp
  have "k + length ?os \<le> length buf"
    using room by linarith
  with valid have s1: "body i x (buf, k, st) = Some (Inr (splice buf k ?os, k + length ?os, ?st))"
    by (rule step)
  have "\<exists>buf'. decodeLoop body (xs @ c # rest) (i + 1) (splice buf k ?os, k + length ?os, ?st) =
      Some (Inl (invalidByte (i + 1 + length xs) c, buf'))"
    using Cons.prems room by (intro Cons.IH) (simp_all add: splice_length)
  then show ?case
    using s1 by simp
qed

lemma normalAcc_count:
  "fst st < 8 \<Longrightarrow>
     fst st + 5 = 8 * length (fst (normalAcc v st)) + fst (snd (normalAcc v st)) \<and>
     fst (snd (normalAcc v st)) < 8"
  by (cases st) (auto simp: normalAcc_def)

lemma inversedAcc_count:
  "fst st \<le> 12 \<Longrightarrow>
     fst st + 5 = 8 * length (fst (inversedAcc v st)) + fst (snd (inversedAcc v st)) \<and>
     5 \<le> fst (snd (inversedAcc v st)) \<and> fst (snd (inversedAcc v st)) \<le> 12"
  by (cases st) (auto simp: inversedAcc_def)

lemma normalLoop_count:
  "fst st < 8 \<Longrightarrow>
     fst st + 5 * length vs =
       8 * length (fst (accLoop normalAcc vs st)) + fst (snd (accLoop normalAcc vs st)) \<and>
     fst (snd (accLoop normalAcc vs st)) < 8"
proof (induction vs arbitrary: st)
  case Nil
  then show ?case by simp
next
  case (Cons v vs)
  from Cons.prems have s: "fst st + 5 = 8 * length (fst (normalAcc v st)) + fst (snd (normalAcc v st))"
    and b: "fst (snd (normalAcc v st)) < 8"
    using normalAcc_count [of st v] by simp_all
  from b have "fst (snd (normalAcc v st)) + 5 * length vs =
      8 * length (fst (accLoop normalAcc vs (snd (normalAcc v st)))) +
      fst (snd (accLoop normalAcc vs (snd (normalAcc v st)))) \<and>
      fst (snd (accLoop normalAcc vs (snd (normalAcc v st)))) < 8"
    by (rule Cons.IH)
  with s show ?case by simp
qed

lemma inversedLoop_count:
  "fst st \<le> 12 \<Longrightarrow>
     fst st + 5 * length vs =
       8 * length (fst (accLoop inversedAcc vs st)) + fst (snd (accLoop inversedAcc vs st)) \<and>
     fst (snd (accLoop inversedAcc vs st)) \<le> 12 \<and>
     (vs \<noteq> [] \<longrightarrow> 5 \<le> fst (snd (accLoop inversedAcc vs st)))"
proof (induction vs arbitrary: st)
  case Nil
  then show ?case by simp
next
  case (Cons v vs)
  from Cons.prems have s: "fst st + 5 = 8 * length (fst (inversedAcc v st)) + fst (snd (inversedAcc v st))"
    and b: "fst (snd (inversedAcc v st)) \<le> 12" and c: "5 \<le> fst (snd (inversedAcc v st))"
    using inversedAcc_count [of st v] by simp_all
  from b have ih: "fst (snd (inversedAcc v st)) + 5 * length vs =
      8 * length (fst (accLoop inversedAcc vs (snd (inversedAcc v st)))) +
      fst (snd (accLoop inversedAcc vs (snd (inversedAcc v st)))) \<and>
      fst (snd (accLoop inversedAcc vs (snd (inversedAcc v st)))) \<le> 12 \<and>
      (vs \<noteq> [] \<longrightarrow> 5 \<le> fst (snd (accLoop inversedAcc vs (snd (inversedAcc v st)))))"
    by (rule Cons.IH)
  show ?case
  proof (cases vs)
    case Nil
    with s b c show ?thesis by simp
  next
    case (Cons w ws)
    with ih s show ?thesis by simp
  qed
qed

text \<open>Bounds by \<open>DecodedLen\<close>, for a prefix of the input as well.\<close>

lemma DecodedLen_bound:
  assumes "8 * l \<le> 5 * m'" "m' \<le> m"
  shows "l \<le> DecodedLen m"
proof -
  define q r where "q = m div 8" and "r = m mod 8"
  have "m = 8 * q + r"
    by (simp add: q_def r_def)
  then have "5 * m' \<le> 40 * q + 8 * r"
    using assms(2) by simp
  with assms(1) have "8 * l \<le> 8 * (5 * q + r)"
    by simp
  then have "l \<le> 5 * q + r"
    by simp
  then show ?thesis
    by (simp add: DecodedLen_def q_def r_def)
qed

lemma DecodedLen_bound_strict:
  assumes "8 * l + 5 \<le> 5 * m'" "m' \<le> m"
  shows "l < DecodedLen m"
proof -
  define q r where "q = m div 8" and "r = m mod 8"
  have "m = 8 * q + r"
    by (simp add: q_def r_def)
  then have "5 * m' \<le> 40 * q + 8 * r"
    using assms(2) by simp
  with assms(1) have "8 * l < 8 * (5 * q + r)"
    by simp
  then have "l < 5 * q + r"
    by simp
  then show ?thesis
    by (simp add: DecodedLen_def q_def r_def)
qed



lemma allBytes_bound: "length (allBytes ord vs) \<le> DecodedLen (length vs)"
proof (cases "ord = OrderInversed")
  case False
  then have ord: "ord = OrderNormal" by (cases ord) simp_all
  let ?l = "length (fst (accLoop normalAcc vs (0, 0)))"
  have "0 + 5 * length vs = 8 * ?l + fst (snd (accLoop normalAcc vs (0, 0)))"
    using normalLoop_count [of "(0, 0)" vs] by simp
  then have "8 * ?l \<le> 5 * length vs"
    by linarith
  then have "?l \<le> DecodedLen (length vs)"
    by (rule DecodedLen_bound) simp
  then show ?thesis
    by (simp add: ord allBytes_def orderAcc_def finalBytes_def case_prod_beta)
next
  case True
  show ?thesis
  proof (cases vs)
    case Nil
    then show ?thesis
      by (simp add: True allBytes_def orderAcc_def finalBytes_def)
  next
    case (Cons w ws)
    let ?l = "length (fst (accLoop inversedAcc vs (0, 0)))"
    let ?p = "fst (snd (accLoop inversedAcc vs (0, 0)))"
    have "0 + 5 * length vs = 8 * ?l + ?p \<and> 5 \<le> ?p"
      using inversedLoop_count [of "(0, 0)" vs] Cons by simp
    then have "8 * ?l + 5 \<le> 5 * length vs"
      by linarith
    then have "?l < DecodedLen (length vs)"
      by (rule DecodedLen_bound_strict) simp
    then show ?thesis
      by (simp add: True allBytes_def orderAcc_def finalBytes_def case_prod_beta)
  qed
qed

lemma decodeSym_valid:
  assumes "length tbl = 256" "tbl ! unat c \<noteq> 0xff"
    "k + length (fst (orderAcc ord (symbolValue tbl c) st)) \<le> length buf"
  shows "decodeSym ord tbl i c (buf, k, st) =
           Some (Inr (splice buf k (fst (orderAcc ord (symbolValue tbl c) st)),
                      k + length (fst (orderAcc ord (symbolValue tbl c) st)),
                      snd (orderAcc ord (symbolValue tbl c) st)))"
proof -
  obtain pb acc where st: "st = (pb, acc)" by (cases st)
  show ?thesis
  proof (cases "ord = OrderInversed")
    case True
    with assms show ?thesis
      using decodeInversedSym_refine [of tbl k "symbolValue tbl c" pb acc buf i c]
      by (simp add: decodeSym_def orderAcc_def st)
  next
    case False
    with assms show ?thesis
      using decodeNormalSym_valid [of tbl c k pb acc buf i]
      by (simp add: decodeSym_def orderAcc_def st)
  qed
qed

lemma decodeSym_invalid:
  assumes "length tbl = 256" "tbl ! unat c = 0xff"
    "k + length (fst (orderAcc ord (symbolValue tbl c) st)) \<le> length buf"
  shows "\<exists>buf'. decodeSym ord tbl i c (buf, k, st) = Some (Inl (invalidByte i c, buf'))"
proof -
  obtain pb acc where st: "st = (pb, acc)" by (cases st)
  show ?thesis
  proof (cases "ord = OrderInversed")
    case True
    with assms show ?thesis
      using decodeInversedSym_refine [of tbl k "symbolValue tbl c" pb acc buf i c]
      by (simp add: decodeSym_def orderAcc_def st)
  next
    case False
    with assms show ?thesis
      using decodeNormalSym_invalid [of tbl c i buf k pb acc]
      by (simp add: decodeSym_def st)
  qed
qed

lemma DecodeAlphabetToSlice_loop:
  "DecodeAlphabetToSlice input buffer a =
     (case decodeLoop (decodeSym (encodeOrder a) (decodeBytes a)) input 0 (buffer, 0, 0, 0) of
        None \<Rightarrow> None
      | Some (Inl (e, buffer')) \<Rightarrow> Some ((0, Some e), buffer')
      | Some (Inr (buffer', k, pb, acc)) \<Rightarrow>
          if encodeOrder a = OrderInversed \<and> 0 < pb
          then (case store buffer' k (ucast (acc AND 0xFF)) of
                  None \<Rightarrow> None | Some buffer'' \<Rightarrow> Some ((k + 1, None), buffer''))
          else Some ((k, None), buffer'))"
  by (auto simp: DecodeAlphabetToSlice_def decodeSym_def split: option.splits sum.splits)

lemma DecodeAlphabetToSlice_valid:
  assumes len: "length (decodeBytes a) = 256"
    and valid: "\<forall>c \<in> set input. decodeBytes a ! unat c \<noteq> 0xff"
    and room: "length (allBytes (encodeOrder a) (map (symbolValue (decodeBytes a)) input))
                 \<le> length buffer"
  shows "DecodeAlphabetToSlice input buffer a =
           Some ((length (allBytes (encodeOrder a) (map (symbolValue (decodeBytes a)) input)), None),
                 splice buffer 0 (allBytes (encodeOrder a) (map (symbolValue (decodeBytes a)) input)))"
proof -
  let ?tbl = "decodeBytes a" and ?ord = "encodeOrder a"
  let ?vs = "map (symbolValue ?tbl) input"
  let ?os = "fst (accLoop (orderAcc ?ord) ?vs (0, 0))"
  let ?st = "snd (accLoop (orderAcc ?ord) ?vs (0, 0))"
  have all: "allBytes ?ord ?vs = ?os @ finalBytes ?ord ?st"
    by (simp add: allBytes_def)
  have room1: "0 + length ?os \<le> length buffer"
    using room by (simp add: all)
  have step: "\<And>i c buf k st. ?tbl ! unat c \<noteq> 0xff \<Longrightarrow>
      k + length (fst (orderAcc ?ord (symbolValue ?tbl c) st)) \<le> length buf \<Longrightarrow>
      decodeSym ?ord ?tbl i c (buf, k, st) =
        Some (Inr (splice buf k (fst (orderAcc ?ord (symbolValue ?tbl c) st)),
                   k + length (fst (orderAcc ?ord (symbolValue ?tbl c) st)),
                   snd (orderAcc ?ord (symbolValue ?tbl c) st)))"
    using len by (rule decodeSym_valid)
  have loop: "decodeLoop (decodeSym ?ord ?tbl) input 0 (buffer, 0, 0, 0) =
      Some (Inr (splice buffer 0 ?os, 0 + length ?os, ?st))"
    using step valid room1 by (rule decodeLoop_valid)
  obtain pb acc where st: "?st = (pb, acc)" by (cases ?st)
  show ?thesis
  proof (cases "?ord = OrderInversed \<and> 0 < pb")
    case False
    then have "finalBytes ?ord ?st = []"
      using st by (auto simp: finalBytes_def)
    with loop False st all show ?thesis
      by (auto simp: DecodeAlphabetToSlice_loop)
  next
    case True
    then have fin: "finalBytes ?ord ?st = [ucast (acc AND 0xFF)]"
      using st by (auto simp: finalBytes_def)
    have lt: "length ?os < length buffer"
      using room by (simp add: all fin)
    then have "store (splice buffer 0 ?os) (length ?os) (ucast (acc AND 0xFF)) =
        Some (splice (splice buffer 0 ?os) (length ?os) [ucast (acc AND 0xFF)])"
      by (intro store_splice) (simp add: splice_length)
    moreover have "splice (splice buffer 0 ?os) (0 + length ?os) [ucast (acc AND 0xFF)] =
        splice buffer 0 (?os @ [ucast (acc AND 0xFF)])"
      using lt by (intro splice_append) simp
    ultimately show ?thesis
      using loop True st fin all by (auto simp: DecodeAlphabetToSlice_loop)
  qed
qed

lemma DecodeAlphabet_valid:
  assumes len: "length (decodeBytes a) = 256"
    and valid: "\<forall>c \<in> set input. decodeBytes a ! unat c \<noteq> 0xff"
  shows "DecodeAlphabet input a =
           Some (Inr (allBytes (encodeOrder a) (map (symbolValue (decodeBytes a)) input)))"
proof -
  let ?bs = "allBytes (encodeOrder a) (map (symbolValue (decodeBytes a)) input)"
  let ?n = "DecodedLen (length input)"
  have b: "length ?bs \<le> ?n"
    using allBytes_bound [of "encodeOrder a" "map (symbolValue (decodeBytes a)) input"] by simp
  then have "DecodeAlphabetToSlice input (replicate ?n 0) a =
      Some ((length ?bs, None), splice (replicate ?n 0) 0 ?bs)"
    using len valid by (intro DecodeAlphabetToSlice_valid) simp_all
  then show ?thesis
    using b by (simp add: DecodeAlphabet_def Let_def slice_to_def splice_def)
qed

lemma prefix_room:
  assumes "m' \<le> m" and that: "length vs = m'"
  shows "length (fst (accLoop (orderAcc ord) vs (0, 0))) \<le> DecodedLen m"
proof (cases "ord = OrderInversed")
  case True
  let ?l = "length (fst (accLoop inversedAcc vs (0, 0)))"
  have "0 + 5 * length vs = 8 * ?l + fst (snd (accLoop inversedAcc vs (0, 0)))"
    using inversedLoop_count [of "(0, 0)" vs] by simp
  then have "8 * ?l \<le> 5 * m'"
    using that by linarith
  then have "?l \<le> DecodedLen m"
    using assms(1) by (rule DecodedLen_bound)
  then show ?thesis by (simp add: True orderAcc_def)
next
  case False
  let ?l = "length (fst (accLoop normalAcc vs (0, 0)))"
  have "0 + 5 * length vs = 8 * ?l + fst (snd (accLoop normalAcc vs (0, 0)))"
    using normalLoop_count [of "(0, 0)" vs] by simp
  then have "8 * ?l \<le> 5 * m'"
    using that by linarith
  then have "?l \<le> DecodedLen m"
    using assms(1) by (rule DecodedLen_bound)
  then show ?thesis by (simp add: False orderAcc_def)
qed

lemma DecodeAlphabetToSlice_invalid:
  assumes len: "length (decodeBytes a) = 256"
    and valid: "\<forall>x \<in> set pre. decodeBytes a ! unat x \<noteq> 0xff"
    and bad: "decodeBytes a ! unat c = 0xff"
    and room: "DecodedLen (length (pre @ c # rest)) \<le> length buffer"
  shows "\<exists>buffer'. DecodeAlphabetToSlice (pre @ c # rest) buffer a =
           Some ((0, Some (invalidByte (length pre) c)), buffer')"
proof -
  let ?tbl = "decodeBytes a" and ?ord = "encodeOrder a"
  have "length (fst (accLoop (orderAcc ?ord) (map (symbolValue ?tbl) (pre @ [c])) (0, 0)))
      \<le> DecodedLen (length (pre @ c # rest))"
    by (rule prefix_room [of "length pre + 1"]) simp_all
  with room have room1:
    "0 + length (fst (accLoop (orderAcc ?ord) (map (symbolValue ?tbl) (pre @ [c])) (0, 0)))
      \<le> length buffer"
    by linarith
  have step: "\<And>i c buf k st. ?tbl ! unat c \<noteq> 0xff \<Longrightarrow>
      k + length (fst (orderAcc ?ord (symbolValue ?tbl c) st)) \<le> length buf \<Longrightarrow>
      decodeSym ?ord ?tbl i c (buf, k, st) =
        Some (Inr (splice buf k (fst (orderAcc ?ord (symbolValue ?tbl c) st)),
                   k + length (fst (orderAcc ?ord (symbolValue ?tbl c) st)),
                   snd (orderAcc ?ord (symbolValue ?tbl c) st)))"
    using len by (rule decodeSym_valid)
  have stop: "\<And>i c buf k st. ?tbl ! unat c = 0xff \<Longrightarrow>
      k + length (fst (orderAcc ?ord (symbolValue ?tbl c) st)) \<le> length buf \<Longrightarrow>
      \<exists>buf'. decodeSym ?ord ?tbl i c (buf, k, st) = Some (Inl (invalidByte i c, buf'))"
    using len by (rule decodeSym_invalid)
  have "\<exists>buf'. decodeLoop (decodeSym ?ord ?tbl) (pre @ c # rest) 0 (buffer, 0, 0, 0) =
      Some (Inl (invalidByte (0 + length pre) c, buf'))"
    using step stop valid bad room1 by (rule decodeLoop_invalid)
  then show ?thesis
    by (auto simp: DecodeAlphabetToSlice_loop)
qed

lemma DecodeAlphabet_invalid:
  assumes len: "length (decodeBytes a) = 256"
    and valid: "\<forall>x \<in> set pre. decodeBytes a ! unat x \<noteq> 0xff"
    and bad: "decodeBytes a ! unat c = 0xff"
  shows "DecodeAlphabet (pre @ c # rest) a = Some (Inl (invalidByte (length pre) c))"
proof -
  let ?n = "DecodedLen (length (pre @ c # rest))"
  have "\<exists>buffer'. DecodeAlphabetToSlice (pre @ c # rest) (replicate ?n 0) a =
      Some ((0, Some (invalidByte (length pre) c)), buffer')"
    using len valid bad by (rule DecodeAlphabetToSlice_invalid) simp
  then show ?thesis
    by (auto simp: DecodeAlphabet_def Let_def)
qed

lemma of_nat_not_ff: "i < 32 \<Longrightarrow> (of_nat i :: byte) \<noteq> 0xff"
proof
  assume i: "i < 32" and "(of_nat i :: byte) = 0xff"
  then have "unat (of_nat i :: byte) = 255" by simp
  moreover have "unat (of_nat i :: byte) = i"
    using i by (simp add: unat_of_nat)
  ultimately show False using i by simp
qed

lemma inv_valid:
  assumes "alphabet_inv a"
  shows "decodeBytes a ! unat c \<noteq> 0xff \<longleftrightarrow> c \<in> set (encodeSymbols a)"
proof
  assume "c \<in> set (encodeSymbols a)"
  then obtain i where i: "i < length (encodeSymbols a)" "encodeSymbols a ! i = c"
    by (auto simp: in_set_conv_nth)
  with assms have "i < 32" and "decodeBytes a ! unat c = of_nat i"
    by (auto simp: alphabet_inv_def)
  then show "decodeBytes a ! unat c \<noteq> 0xff"
    by (simp add: of_nat_not_ff)
next
  assume "decodeBytes a ! unat c \<noteq> 0xff"
  with assms show "c \<in> set (encodeSymbols a)"
    by (auto simp: alphabet_inv_def)
qed

lemma first_invalid:
  assumes "\<not> (\<forall>c \<in> set input. tbl ! unat c \<noteq> (0xff :: byte))"
  shows "\<exists>pre c rest. input = pre @ c # rest \<and> tbl ! unat c = 0xff \<and>
           (\<forall>x \<in> set pre. tbl ! unat x \<noteq> 0xff)"
proof -
  from assms have "\<exists>c \<in> set input. tbl ! unat c = 0xff" by blast
  then obtain pre c rest where "input = pre @ c # rest" "tbl ! unat c = 0xff"
    "\<forall>x \<in> set pre. \<not> tbl ! unat x = 0xff"
    using split_list_first_prop [of input "\<lambda>c. tbl ! unat c = 0xff"] by blast
  then show ?thesis by blast
qed

lemma DecodeAlphabetToSlice_total:
  assumes len: "length (decodeBytes a) = 256"
    and room: "DecodedLen (length input) \<le> length buffer"
  shows "(\<forall>c \<in> set input. decodeBytes a ! unat c \<noteq> 0xff) \<and>
           DecodeAlphabetToSlice input buffer a =
             Some ((length (allBytes (encodeOrder a) (map (symbolValue (decodeBytes a)) input)), None),
                   splice buffer 0
                     (allBytes (encodeOrder a) (map (symbolValue (decodeBytes a)) input))) \<or>
         (\<exists>pre c rest buffer'. input = pre @ c # rest \<and>
           DecodeAlphabetToSlice input buffer a =
             Some ((0, Some (invalidByte (length pre) c)), buffer'))"
proof (cases "\<forall>c \<in> set input. decodeBytes a ! unat c \<noteq> 0xff")
  case True
  have "length (allBytes (encodeOrder a) (map (symbolValue (decodeBytes a)) input))
      \<le> DecodedLen (length input)"
    using allBytes_bound [of "encodeOrder a" "map (symbolValue (decodeBytes a)) input"] by simp
  with room have "length (allBytes (encodeOrder a) (map (symbolValue (decodeBytes a)) input))
      \<le> length buffer"
    by linarith
  with len True show ?thesis
    by (simp add: DecodeAlphabetToSlice_valid)
next
  case False
  then obtain pre c rest where split: "input = pre @ c # rest"
    and bad: "decodeBytes a ! unat c = 0xff"
    and valid: "\<forall>x \<in> set pre. decodeBytes a ! unat x \<noteq> 0xff"
    using first_invalid [of input "decodeBytes a"] by blast
  have "\<exists>buffer'. DecodeAlphabetToSlice (pre @ c # rest) buffer a =
      Some ((0, Some (invalidByte (length pre) c)), buffer')"
    using len valid bad room unfolding split by (rule DecodeAlphabetToSlice_invalid)
  with split show ?thesis by blast
qed

section \<open>Claims about decoding\<close>

text \<open>
  Claim C4. For every alphabet that \<open>NewAlphabet\<close> returns and for the three predefined ones:
  when the input has a byte outside the 32 symbols, \<open>c\<close> being the first one and \<open>pre\<close> the
  symbols before it, \<open>DecodeAlphabet\<close> returns no bytes and the \<open>DecodeError\<close> with the message
  \<open>invalid byte\<close>, the offset \<open>len(pre)\<close> and the byte \<open>c\<close>, and \<open>DecodeAlphabetToSlice\<close>, on a
  buffer of at least \<open>DecodedLen(len(input))\<close> bytes, returns the count 0 with this error. When
  every byte of the input is a symbol, \<open>DecodeAlphabet\<close> returns a byte sequence and no error,
  and \<open>DecodeAlphabetToSlice\<close> a count and no error.
\<close>

theorem invalid_symbol_rejected:
  assumes "NewAlphabet s ord = Inr a \<or> a = ZBASE32 \<or> a = RFC4648 \<or> a = BECH32"
  shows "((\<forall>x \<in> set pre. x \<in> set (encodeSymbols a)) \<and> c \<notin> set (encodeSymbols a) \<longrightarrow>
            DecodeAlphabet (pre @ c # rest) a =
              Some (Inl \<lparr>Msg = ''invalid byte'', Offset = int (length pre), Byte = c\<rparr>) \<and>
            (DecodedLen (length (pre @ c # rest)) \<le> length buffer \<longrightarrow>
               (\<exists>buffer'. DecodeAlphabetToSlice (pre @ c # rest) buffer a =
                  Some ((0, Some \<lparr>Msg = ''invalid byte'', Offset = int (length pre), Byte = c\<rparr>),
                        buffer')))) \<and>
         ((\<forall>x \<in> set input. x \<in> set (encodeSymbols a)) \<longrightarrow>
            (\<exists>out. DecodeAlphabet input a = Some (Inr out)) \<and>
            (DecodedLen (length input) \<le> length buffer \<longrightarrow>
               (\<exists>n buffer'. DecodeAlphabetToSlice input buffer a = Some ((n, None), buffer'))))"
proof -
  have inv: "alphabet_inv a"
    using assms by (rule built_inv)
  then have len: "length (decodeBytes a) = 256"
    by (simp add: alphabet_inv_def)
  have v: "decodeBytes a ! unat x \<noteq> 0xff" if "x \<in> set (encodeSymbols a)" for x
    using that inv_valid [OF inv, of x] by simp
  have w: "decodeBytes a ! unat x = 0xff" if "x \<notin> set (encodeSymbols a)" for x
    using that inv_valid [OF inv, of x] by simp
  have 1: "DecodeAlphabet (pre @ c # rest) a =
      Some (Inl \<lparr>Msg = ''invalid byte'', Offset = int (length pre), Byte = c\<rparr>)"
    if "\<forall>x \<in> set pre. x \<in> set (encodeSymbols a)" "c \<notin> set (encodeSymbols a)"
    using that len v w DecodeAlphabet_invalid [of a pre c rest]
    by (simp add: invalidByte_def)
  have 2: "\<exists>buffer'. DecodeAlphabetToSlice (pre @ c # rest) buffer a =
      Some ((0, Some \<lparr>Msg = ''invalid byte'', Offset = int (length pre), Byte = c\<rparr>), buffer')"
    if "\<forall>x \<in> set pre. x \<in> set (encodeSymbols a)" "c \<notin> set (encodeSymbols a)"
      "DecodedLen (length (pre @ c # rest)) \<le> length buffer"
    using that len v w DecodeAlphabetToSlice_invalid [of a pre c rest buffer]
    by (simp add: invalidByte_def)
  have 3: "\<exists>out. DecodeAlphabet input a = Some (Inr out)"
    if "\<forall>x \<in> set input. x \<in> set (encodeSymbols a)"
    using that len v by (simp add: DecodeAlphabet_valid)
  have 4: "\<exists>n buffer'. DecodeAlphabetToSlice input buffer a = Some ((n, None), buffer')"
    if "\<forall>x \<in> set input. x \<in> set (encodeSymbols a)" "DecodedLen (length input) \<le> length buffer"
  proof -
    have "length (allBytes (encodeOrder a) (map (symbolValue (decodeBytes a)) input))
        \<le> DecodedLen (length input)"
      using allBytes_bound [of "encodeOrder a" "map (symbolValue (decodeBytes a)) input"] by simp
    with that(2) have "length (allBytes (encodeOrder a) (map (symbolValue (decodeBytes a)) input))
        \<le> length buffer"
      by linarith
    with that(1) len v show ?thesis
      by (simp add: DecodeAlphabetToSlice_valid)
  qed
  from 1 2 3 4 show ?thesis by blast
qed

theorem invalid_symbol_rejected_witness:
  "DecodeAlphabet (bytes_of ''HELLO@'') RFC4648 =
     Some (Inl \<lparr>Msg = ''invalid byte'', Offset = 5, Byte = 0x40\<rparr>) \<and>
   (\<exists>out. DecodeAlphabet (bytes_of ''NBSWY3DP'') RFC4648 = Some (Inr out))"
proof -
  have h: "NewAlphabet [] OrderNormal = Inr RFC4648 \<or> RFC4648 = ZBASE32 \<or> RFC4648 = RFC4648 \<or>
      RFC4648 = BECH32"
    by simp
  have pre: "(\<forall>x \<in> set (bytes_of ''HELLO''). x \<in> set (encodeSymbols RFC4648)) \<and>
      (0x40 :: byte) \<notin> set (encodeSymbols RFC4648)"
    by (simp add: RFC4648_def bytes_of_def)
  have all: "\<forall>x \<in> set (bytes_of ''NBSWY3DP''). x \<in> set (encodeSymbols RFC4648)"
    by (simp add: RFC4648_def bytes_of_def)
  have "DecodeAlphabet (bytes_of ''HELLO'' @ 0x40 # []) RFC4648 =
      Some (Inl \<lparr>Msg = ''invalid byte'', Offset = int (length (bytes_of ''HELLO'')), Byte = 0x40\<rparr>)"
    using invalid_symbol_rejected [OF h, of "bytes_of ''HELLO''" "0x40" "[]" "[]" "[]"] pre
    by blast
  moreover have "\<exists>out. DecodeAlphabet (bytes_of ''NBSWY3DP'') RFC4648 = Some (Inr out)"
    using invalid_symbol_rejected [OF h, of "[]" 0 "[]" "[]" "bytes_of ''NBSWY3DP''"] all
    by blast
  ultimately show ?thesis
    by (simp add: bytes_of_def)
qed




lemma order_cases: "ord \<noteq> OrderInversed \<Longrightarrow> ord = OrderNormal"
  by (cases ord) simp_all



section \<open>Bounds and absence of panics\<close>

text \<open>
  Claim C7. For every alphabet (the two tables having the 32 and 256 entries of the Go array
  types) and every byte sequence \<open>b\<close>: \<open>EncodeAlphabet\<close> returns a symbol sequence of at most
  \<open>EncodedLen(len(b))\<close> symbols, and \<open>EncodeToSlice\<close>, on a buffer of at least that size, a count
  of at most \<open>EncodedLen(len(b))\<close>. For every symbol sequence \<open>s\<close> that decodes without error,
  the byte sequence that \<open>DecodeAlphabet\<close> returns has at most \<open>DecodedLen(len(s))\<close> bytes, and
  so has the count that \<open>DecodeAlphabetToSlice\<close> returns on a buffer of at least that size.
\<close>

theorem length_bounds:
  assumes "length (encodeSymbols a) = 32" and "length (decodeBytes a) = 256"
  shows "(\<exists>t. EncodeAlphabet b a = Some t \<and> length t \<le> EncodedLen (length b)) \<and>
         (EncodedLen (length b) \<le> length output \<longrightarrow>
            (\<exists>n out. EncodeToSlice b output a = Some (n, out) \<and> n \<le> EncodedLen (length b))) \<and>
         (\<forall>out. DecodeAlphabet s a = Some (Inr out) \<longrightarrow> length out \<le> DecodedLen (length s)) \<and>
         (DecodedLen (length s) \<le> length buffer \<longrightarrow>
            (\<forall>n buffer'. DecodeAlphabetToSlice s buffer a = Some ((n, None), buffer') \<longrightarrow>
               n \<le> DecodedLen (length s)))"
proof -
  have c: "symbolCount (length b) < EncodedLen (length b)"
    by (rule symbolCount_EncodedLen)
  have 1: "\<exists>t. EncodeAlphabet b a = Some t \<and> length t \<le> EncodedLen (length b)"
    using assms(1) c by (simp add: EncodeAlphabet_refine allSyms_length)
  have 2: "\<exists>n out. EncodeToSlice b output a = Some (n, out) \<and> n \<le> EncodedLen (length b)"
    if "EncodedLen (length b) \<le> length output"
  proof -
    from that c have "symbolCount (length b) \<le> length output" by linarith
    with assms(1) c show ?thesis
      by (simp add: EncodeToSlice_refine)
  qed
  have 4: "n \<le> DecodedLen (length s)"
    if "DecodedLen (length s) \<le> length buffer"
      "DecodeAlphabetToSlice s buffer a = Some ((n, None), buffer')" for n buffer' buffer
    using DecodeAlphabetToSlice_total [OF assms(2) that(1)] that(2)
      allBytes_bound [of "encodeOrder a" "map (symbolValue (decodeBytes a)) s"]
    by auto
  have 3: "length out \<le> DecodedLen (length s)" if "DecodeAlphabet s a = Some (Inr out)" for out
  proof -
    from that obtain n buffer' where
      r: "DecodeAlphabetToSlice s (replicate (DecodedLen (length s)) 0) a = Some ((n, None), buffer')"
      and out: "slice_to buffer' n = Some out"
      by (auto simp: DecodeAlphabet_def Let_def bind_eq_Some_conv split: option.splits)
    have "n \<le> DecodedLen (length s)"
      using 4 [of "replicate (DecodedLen (length s)) 0" n buffer'] r by simp
    with out show ?thesis
      by (auto simp: slice_to_def split: if_splits)
  qed
  from 1 2 3 4 show ?thesis by blast
qed

theorem length_bounds_witness:
  "(\<exists>t. EncodeAlphabet (bytes_of ''hello'') ZBASE32 = Some t \<and>
        length t \<le> EncodedLen (length (bytes_of ''hello''))) \<and>
   DecodeAlphabet (bytes_of ''em3ags7p'') ZBASE32 = Some (Inr (bytes_of ''hello'')) \<and>
   length (bytes_of ''hello'') \<le> DecodedLen (length (bytes_of ''em3ags7p''))"
proof -
  have h: "length (encodeSymbols ZBASE32) = 32" "length (decodeBytes ZBASE32) = 256"
    using inv_ZBASE32 by (simp_all add: alphabet_inv_def)
  note b = length_bounds [OF h, of "bytes_of ''hello''" "[]" "bytes_of ''em3ags7p''" "[]"]
  from b have "\<exists>t. EncodeAlphabet (bytes_of ''hello'') ZBASE32 = Some t \<and>
      length t \<le> EncodedLen (length (bytes_of ''hello''))"
    by (rule conjunct1)
  moreover from b have "\<forall>out. DecodeAlphabet (bytes_of ''em3ags7p'') ZBASE32 = Some (Inr out) \<longrightarrow>
      length out \<le> DecodedLen (length (bytes_of ''em3ags7p''))"
    by (rule conjunct2 [THEN conjunct2, THEN conjunct1])
  then have "DecodeAlphabet (bytes_of ''em3ags7p'') ZBASE32 = Some (Inr (bytes_of ''hello'')) \<longrightarrow>
      length (bytes_of ''hello'') \<le> DecodedLen (length (bytes_of ''em3ags7p''))"
    by (rule spec)
  then have "length (bytes_of ''hello'') \<le> DecodedLen (length (bytes_of ''em3ags7p''))"
    using hello_decode by (rule mp)
  ultimately show ?thesis
    using hello_decode by (intro conjI)
qed

text \<open>
  Claim C9. For every alphabet (the two tables having the 32 and 256 entries of the Go array
  types, as those of every validly constructed alphabet have) and every input:
  \<open>EncodeAlphabet\<close> returns a symbol sequence; \<open>EncodeToSlice\<close> on an output buffer of at least
  \<open>EncodedLen(len(input))\<close> bytes returns, no index being out of range, and leaves the length
  of the buffer as it was; \<open>DecodeAlphabetToSlice\<close> on a buffer of at least
  \<open>DecodedLen(len(input))\<close> bytes returns (a count or an error), no index being out of range.
\<close>

theorem no_panic:
  assumes "length (encodeSymbols a) = 32" and "length (decodeBytes a) = 256"
  shows "(\<exists>t. EncodeAlphabet input a = Some t) \<and>
         (EncodedLen (length input) \<le> length output \<longrightarrow>
            (\<exists>n out. EncodeToSlice input output a = Some (n, out) \<and>
                      length out = length output)) \<and>
         (DecodedLen (length input) \<le> length buffer \<longrightarrow>
            (\<exists>r buffer'. DecodeAlphabetToSlice input buffer a = Some (r, buffer')))"
proof -
  have c: "symbolCount (length input) < EncodedLen (length input)"
    by (rule symbolCount_EncodedLen)
  have 1: "\<exists>t. EncodeAlphabet input a = Some t"
    using assms(1) by (simp add: EncodeAlphabet_refine)
  have 2: "\<exists>n out. EncodeToSlice input output a = Some (n, out) \<and> length out = length output"
    if "EncodedLen (length input) \<le> length output"
  proof -
    from that c have "symbolCount (length input) \<le> length output" by linarith
    with assms(1) show ?thesis
      by (simp add: EncodeToSlice_refine splice_length allSyms_length)
  qed
  have 3: "\<exists>r buffer'. DecodeAlphabetToSlice input buffer a = Some (r, buffer')"
    if "DecodedLen (length input) \<le> length buffer"
    using DecodeAlphabetToSlice_total [OF assms(2) that] by auto
  from 1 2 3 show ?thesis by blast
qed

theorem no_panic_witness:
  "(\<exists>t. EncodeAlphabet (bytes_of ''hello'') BECH32 = Some t) \<and>
   (\<exists>n out. EncodeToSlice (bytes_of ''hello'') (replicate 9 0) BECH32 = Some (n, out) \<and>
             length out = 9) \<and>
   (\<exists>r buffer'. DecodeAlphabetToSlice (bytes_of ''hello'') (replicate 5 0) BECH32 =
                   Some (r, buffer'))"
proof -
  have "length (encodeSymbols BECH32) = 32" and "length (decodeBytes BECH32) = 256"
    using inv_BECH32 by (simp_all add: alphabet_inv_def)
  then show ?thesis
    using no_panic [of BECH32 "bytes_of ''hello''" "replicate 9 0" "replicate 5 0"]
    by (simp add: bytes_of_def EncodedLen_def DecodedLen_def)
qed

end
